theory Spec2Isabelle
  imports Main "HOL-Library.Sublist" "HOL-Library.AList"
begin

section \<open>String primitives of the host language\<close>

text \<open>
  The sources are TypeScript. A string is modelled as a list of characters; the proofs never
  depend on the alphabet. \<open>indexOf s t\<close> is \<^verbatim>\<open>s.indexOf(t)\<close>: the position of the first
  occurrence of \<open>t\<close> in \<open>s\<close>, with \<open>None\<close> for the result \<^verbatim>\<open>-1\<close>.
  \<^verbatim>\<open>s.substring(a, b)\<close> with \<open>a \<le> b \<le> length s\<close> (the only way the sources call it)
  is \<open>take (b - a) (drop a s)\<close>, and \<^verbatim>\<open>s.substring(a)\<close> is \<open>drop a s\<close>.
\<close>

fun indexOf :: "'a list \<Rightarrow> 'a list \<Rightarrow> nat option" where
  "indexOf [] t = (if t = [] then Some 0 else None)"
| "indexOf (x # xs) t =
     (if prefix t (x # xs) then Some 0 else map_option Suc (indexOf xs t))"

text \<open>\<^verbatim>\<open>s.includes(t)\<close>.\<close>

definition includesStr :: "'a list \<Rightarrow> 'a list \<Rightarrow> bool" where
  "includesStr s t = (indexOf s t \<noteq> None)"

text \<open>
  \<^verbatim>\<open>s.trim()\<close> removes white space at both ends. Of the characters ECMAScript counts as
  white space or line terminators, the ones that exist in the 8-bit alphabet are listed.
\<close>

definition isWhiteSpace :: "char \<Rightarrow> bool" where
  "isWhiteSpace c = (c \<in> set [CHR 0x09, CHR 0x0A, CHR 0x0B, CHR 0x0C, CHR 0x0D, CHR 0x20, CHR 0xA0])"

definition trim :: "string \<Rightarrow> string" where
  "trim s = rev (dropWhile isWhiteSpace (rev (dropWhile isWhiteSpace s)))"

section \<open>The sentinel-token parser (kimiToolParser.ts)\<close>

datatype StreamResult =
    Text string
  | Thinking string
  | Tool string string

record KimiToolStreamingParser =
  buffer :: string
  inToolSection :: bool
  inToolCall :: bool
  inArguments :: bool
  currentToolName :: string
  currentToolArgs :: string

definition newParser :: KimiToolStreamingParser where
  "newParser = \<lparr> buffer = [], inToolSection = False, inToolCall = False,
     inArguments = False, currentToolName = [], currentToolArgs = [] \<rparr>"

definition SECTION_BEGIN :: string where
  "SECTION_BEGIN = ''<|tool_calls_section_begin|>''"

definition CALL_BEGIN :: string where
  "CALL_BEGIN = ''<|tool_call_begin|>''"

definition ARG_BEGIN :: string where
  "ARG_BEGIN = ''<|tool_call_argument_begin|>''"

definition CALL_END :: string where
  "CALL_END = ''<|tool_call_end|>''"

text \<open>
  \<^verbatim>\<open>findPartialMatch(text, token)\<close>: the loop counts \<open>i\<close> down from
  \<open>min (length text) (length token - 1)\<close> to \<open>1\<close> and returns the first \<open>i\<close> at which the
  last \<open>i\<close> characters of the text are the first \<open>i\<close> characters of the token, else \<open>0\<close>.
\<close>

fun findPartialMatchFrom :: "'a list \<Rightarrow> 'a list \<Rightarrow> nat \<Rightarrow> nat" where
  "findPartialMatchFrom text token 0 = 0"
| "findPartialMatchFrom text token (Suc i) =
     (if drop (length text - Suc i) text = take (Suc i) token then Suc i
      else findPartialMatchFrom text token i)"

definition findPartialMatch :: "'a list \<Rightarrow> 'a list \<Rightarrow> nat" where
  "findPartialMatch text token =
     findPartialMatchFrom text token (min (length text) (length token - 1))"

text \<open>
  One pass through the body of the \<^verbatim>\<open>while\<close> loop of \<^verbatim>\<open>processChunk\<close>. The result is the
  parser after the pass, the results pushed during the pass, and the value of
  \<^verbatim>\<open>processedSomething\<close> at its end.
\<close>

definition step :: "KimiToolStreamingParser \<Rightarrow> KimiToolStreamingParser \<times> StreamResult list \<times> bool" where
  "step p =
    (if \<not> inToolSection p then
       (case indexOf (buffer p) SECTION_BEGIN of
          Some beginIndex \<Rightarrow>
            (p\<lparr> buffer := drop (beginIndex + length SECTION_BEGIN) (buffer p),
                inToolSection := True \<rparr>,
             (if beginIndex > 0 then [Thinking (take beginIndex (buffer p))] else []),
             True)
        | None \<Rightarrow>
            (let potentialSuffix = findPartialMatch (buffer p) SECTION_BEGIN in
             if potentialSuffix > 0 then
               (let safeLength = length (buffer p) - potentialSuffix in
                if safeLength > 0 then
                  (p\<lparr> buffer := drop safeLength (buffer p) \<rparr>,
                   [Thinking (take safeLength (buffer p))], False)
                else (p, [], False))
             else (p\<lparr> buffer := [] \<rparr>, [Thinking (buffer p)], True)))
     else if \<not> inToolCall p then
       (case indexOf (buffer p) CALL_BEGIN of
          Some callIndex \<Rightarrow>
            (p\<lparr> buffer := drop (callIndex + length CALL_BEGIN) (buffer p),
                inToolCall := True, currentToolName := [], currentToolArgs := [] \<rparr>,
             [], True)
        | None \<Rightarrow> (p, [], False))
     else if \<not> inArguments p then
       (case indexOf (buffer p) ARG_BEGIN of
          Some argIndex \<Rightarrow>
            (p\<lparr> currentToolName := currentToolName p @ take argIndex (buffer p),
                buffer := drop (argIndex + length ARG_BEGIN) (buffer p),
                inArguments := True \<rparr>,
             [], True)
        | None \<Rightarrow>
            (let potentialSuffix = findPartialMatch (buffer p) ARG_BEGIN in
             if potentialSuffix > 0 then
               (p\<lparr> currentToolName :=
                     currentToolName p @ take (length (buffer p) - potentialSuffix) (buffer p),
                   buffer := drop (length (buffer p) - potentialSuffix) (buffer p) \<rparr>,
                [], False)
             else
               (p\<lparr> currentToolName := currentToolName p @ buffer p, buffer := [] \<rparr>,
                [], False)))
     else
       (case indexOf (buffer p) CALL_END of
          Some endIndex \<Rightarrow>
            (let args = currentToolArgs p @ take endIndex (buffer p) in
             (p\<lparr> currentToolArgs := args,
                 buffer := drop (endIndex + length CALL_END) (buffer p),
                 inArguments := False, inToolCall := False \<rparr>,
              [Tool (trim (currentToolName p)) (trim args)], True))
        | None \<Rightarrow>
            (let potentialSuffix = findPartialMatch (buffer p) CALL_END in
             if potentialSuffix > 0 then
               (p\<lparr> currentToolArgs :=
                     currentToolArgs p @ take (length (buffer p) - potentialSuffix) (buffer p),
                   buffer := drop (length (buffer p) - potentialSuffix) (buffer p) \<rparr>,
                [], False)
             else
               (p\<lparr> currentToolArgs := currentToolArgs p @ buffer p, buffer := [] \<rparr>,
                [], False))))"

lemma indexOf_le: "indexOf s t = Some i \<Longrightarrow> i + length t \<le> length s"
proof (induction s arbitrary: i)
  case Nil
  then show ?case by (simp split: if_splits)
next
  case (Cons x xs)
  show ?case
  proof (cases "prefix t (x # xs)")
    case True
    with Cons.prems have "i = 0" by simp
    with True show ?thesis using prefix_length_le [of t "x # xs"] by simp
  next
    case False
    with Cons.prems obtain j where "indexOf xs t = Some j" "i = Suc j" by auto
    with Cons.IH show ?thesis by fastforce
  qed
qed

lemma step_shrinks:
  assumes "step p = (p', out, True)" "buffer p \<noteq> []"
  shows "length (buffer p') < length (buffer p)"
  using assms
  by (auto simp: step_def Let_def SECTION_BEGIN_def CALL_BEGIN_def ARG_BEGIN_def CALL_END_def
      split: if_splits option.splits dest!: indexOf_le)

text \<open>
  The \<^verbatim>\<open>while (processedSomething && this.buffer.length > 0)\<close> loop; \<^verbatim>\<open>processedSomething\<close>
  is \<^verbatim>\<open>true\<close> on entry.
\<close>

function processLoop ::
  "KimiToolStreamingParser \<Rightarrow> StreamResult list \<Rightarrow> KimiToolStreamingParser \<times> StreamResult list" where
  "processLoop p results =
     (if buffer p = [] then (p, results)
      else (case step p of
              (p', out, processedSomething) \<Rightarrow>
                if processedSomething then processLoop p' (results @ out)
                else (p', results @ out)))"
  by pat_completeness auto
termination
  by (relation "measure (\<lambda>(p, results). length (buffer p))")
     (auto dest: step_shrinks [OF sym])

declare processLoop.simps [simp del]

definition processChunk ::
  "KimiToolStreamingParser \<Rightarrow> string \<Rightarrow> KimiToolStreamingParser \<times> StreamResult list" where
  "processChunk p chunk = processLoop (p\<lparr> buffer := buffer p @ chunk \<rparr>) []"

definition flush :: "KimiToolStreamingParser \<Rightarrow> KimiToolStreamingParser \<times> StreamResult list" where
  "flush p = (if buffer p \<noteq> [] then (p\<lparr> buffer := [] \<rparr>, [Thinking (buffer p)]) else (p, []))"

text \<open>
  A whole stream: the chunks are given to \<^verbatim>\<open>processChunk\<close> in order, the results of all
  calls are collected in order, and \<^verbatim>\<open>flush\<close> is called at the end.
\<close>

fun feed ::
  "KimiToolStreamingParser \<Rightarrow> string list \<Rightarrow> KimiToolStreamingParser \<times> StreamResult list" where
  "feed p [] = (p, [])"
| "feed p (chunk # chunks) =
     (case processChunk p chunk of
        (p', results) \<Rightarrow>
          (case feed p' chunks of (p'', rest) \<Rightarrow> (p'', results @ rest)))"

definition parseStream :: "string list \<Rightarrow> StreamResult list" where
  "parseStream chunks =
     (case feed newParser chunks of (p, results) \<Rightarrow> results @ snd (flush p))"

text \<open>The \<^verbatim>\<open>content\<close> field of a result; a tool result carries none.\<close>

fun content :: "StreamResult \<Rightarrow> string" where
  "content (Text s) = s"
| "content (Thinking s) = s"
| "content (Tool name args) = []"

text \<open>
  What a consumer of the results observes when it ignores how the text is cut into results:
  the characters of the text and thinking contents, in order, with the tool calls at their
  places.
\<close>

datatype signal = TextChar char | ThinkingChar char | ToolCall string string

fun trace :: "StreamResult list \<Rightarrow> signal list" where
  "trace [] = []"
| "trace (Text s # rs) = map TextChar s @ trace rs"
| "trace (Thinking s # rs) = map ThinkingChar s @ trace rs"
| "trace (Tool name args # rs) = ToolCall name args # trace rs"

text \<open>
  Two notions used to state what the loop does. \<open>awaited p\<close> is the sentinel the parser
  searches for in the state of \<open>p\<close>. \<open>clear e y t\<close> says that no occurrence of \<open>t\<close> in
  \<open>e @ y\<close>, whole or cut off by the end of the text, starts inside \<open>e\<close>.
\<close>

definition awaited :: "KimiToolStreamingParser \<Rightarrow> string" where
  "awaited p =
     (if \<not> inToolSection p then SECTION_BEGIN
      else if \<not> inToolCall p then CALL_BEGIN
      else if \<not> inArguments p then ARG_BEGIN
      else CALL_END)"

definition clear :: "'a list \<Rightarrow> 'a list \<Rightarrow> 'a list \<Rightarrow> bool" where
  "clear e y t = (\<forall>j < length e. \<not> prefix t (drop j (e @ y)) \<and> \<not> prefix (drop j (e @ y)) t)"

section \<open>Structured values\<close>

text \<open>
  Tool-call arguments are JSON text. A parsed value is the value \<^verbatim>\<open>JSON.parse\<close> gives: a string
  is its sequence of UTF-16 code units, with the escapes decoded; a number is the
  double-precision number nearest to the numeral, kept as the text that the runtime prints
  for it (\<^verbatim>\<open>-0\<close> for the negative zero, \<^verbatim>\<open>Infinity\<close> beyond the largest number); the members
  of an object are in the order in which the runtime enumerates them.
\<close>

datatype json =
    JNull
  | JBool bool
  | JNumber string
  | JString "nat list"
  | JArray "json list"
  | JObject "(nat list \<times> json) list"

text \<open>The code units of a text of the model, whose characters are the code units below 256.\<close>

definition codeUnits :: "string \<Rightarrow> nat list" where
  "codeUnits s = map of_char s"

definition isJsonSpace :: "char \<Rightarrow> bool" where
  "isJsonSpace c = (c \<in> set [CHR 0x20, CHR 0x09, CHR 0x0A, CHR 0x0D])"

definition skipSpace :: "string \<Rightarrow> string" where
  "skipSpace s = dropWhile isJsonSpace s"

definition isDigit :: "char \<Rightarrow> bool" where
  "isDigit c = (c \<in> set ''0123456789'')"

definition isHexDigit :: "char \<Rightarrow> bool" where
  "isHexDigit c = (c \<in> set ''0123456789abcdefABCDEF'')"

subsection \<open>Strings\<close>

definition hexValue :: "char \<Rightarrow> nat" where
  "hexValue c =
     (if isDigit c then of_char c - 48
      else if c \<in> set ''ABCDEF'' then of_char c - 55
      else of_char c - 87)"

definition hexNumber :: "string \<Rightarrow> nat" where
  "hexNumber ds = foldl (\<lambda>n c. 16 * n + hexValue c) 0 ds"

definition unescape :: "char \<Rightarrow> nat option" where
  "unescape e =
     (if e = CHR 0x22 then Some 0x22
      else if e = CHR 0x5C then Some 0x5C
      else if e = CHR ''/'' then Some 0x2F
      else if e = CHR ''b'' then Some 0x08
      else if e = CHR ''f'' then Some 0x0C
      else if e = CHR ''n'' then Some 0x0A
      else if e = CHR ''r'' then Some 0x0D
      else if e = CHR ''t'' then Some 0x09
      else None)"

text \<open>
  The body of a string literal, after the opening quote: the code units it denotes and the
  text after the closing quote. A \<^verbatim>\<open>\u\<close> escape denotes the code unit of its four hexadecimal
  digits.
\<close>

fun parseStringBody :: "string \<Rightarrow> (nat list \<times> string) option" where
  "parseStringBody [] = None"
| "parseStringBody (c # cs) =
     (if c = CHR 0x22 then Some ([], cs)
      else if c = CHR 0x5C then
        (case cs of
           [] \<Rightarrow> None
         | e # cs' \<Rightarrow>
             (if e = CHR ''u'' then
                (if length cs' \<ge> 4 \<and> list_all isHexDigit (take 4 cs') then
                   map_option (\<lambda>(s, r). (hexNumber (take 4 cs') # s, r))
                     (parseStringBody (drop 4 cs'))
                 else None)
              else
                (case unescape e of
                   None \<Rightarrow> None
                 | Some d \<Rightarrow> map_option (\<lambda>(s, r). (d # s, r)) (parseStringBody cs'))))
      else if (of_char c :: nat) < 32 then None
      else map_option (\<lambda>(s, r). (of_char c # s, r)) (parseStringBody cs))"

subsection \<open>Numbers\<close>

text \<open>
  A numeral denotes the double-precision number nearest to its decimal value, the one with
  the even significand when two are equally near. A number that is not zero is
  \<open>m * 2 ^ b\<close> with \<open>2 ^ 52 \<le> m < 2 ^ 53\<close> and \<open>- 1074 \<le> b \<le> 971\<close>, or with \<open>m < 2 ^ 52\<close> and
  \<open>b = - 1074\<close>.
\<close>

fun bitLength :: "nat \<Rightarrow> nat" where
  "bitLength n = (if n = 0 then 0 else Suc (bitLength (n div 2)))"

declare bitLength.simps [simp del]

fun decimalLength :: "nat \<Rightarrow> nat" where
  "decimalLength n = (if n < 10 then 1 else Suc (decimalLength (n div 10)))"

declare decimalLength.simps [simp del]

fun natToDecimal :: "nat \<Rightarrow> string" where
  "natToDecimal n =
     (if n < 10 then [''0123456789'' ! n]
      else natToDecimal (n div 10) @ [''0123456789'' ! (n mod 10)])"

declare natToDecimal.simps [simp del]

definition natOfDigits :: "string \<Rightarrow> nat" where
  "natOfDigits ds = foldl (\<lambda>n c. 10 * n + (of_char c - 48)) 0 ds"

text \<open>\<open>m * 10 ^ e\<close> and \<open>m * 2 ^ e\<close> as fractions of natural numbers.\<close>

definition decimalFraction :: "nat \<Rightarrow> int \<Rightarrow> nat \<times> nat" where
  "decimalFraction m e = (if e \<ge> 0 then (m * 10 ^ nat e, 1) else (m, 10 ^ nat (- e)))"

definition binaryFraction :: "nat \<Rightarrow> int \<Rightarrow> nat \<times> nat" where
  "binaryFraction m e = (if e \<ge> 0 then (m * 2 ^ nat e, 1) else (m, 2 ^ nat (- e)))"

text \<open>
  The integer part of the logarithm of a positive fraction, to the bases 2 and 10: the
  difference of the lengths of numerator and denominator, or one less.
\<close>

definition floorLog2 :: "nat \<Rightarrow> nat \<Rightarrow> int" where
  "floorLog2 num den =
     (let d = int (bitLength num) - int (bitLength den) in
      if (if d \<ge> 0 then den * 2 ^ nat d \<le> num else den \<le> num * 2 ^ nat (- d)) then d else d - 1)"

definition floorLog10 :: "nat \<Rightarrow> nat \<Rightarrow> int" where
  "floorLog10 num den =
     (let d = int (decimalLength num) - int (decimalLength den) in
      if (if d \<ge> 0 then den * 10 ^ nat d \<le> num else den \<le> num * 10 ^ nat (- d)) then d else d - 1)"

definition roundHalfEven :: "nat \<Rightarrow> nat \<Rightarrow> nat" where
  "roundHalfEven n d =
     (let q = n div d; r = n mod d in
      if d < 2 * r \<or> (2 * r = d \<and> odd q) then q + 1 else q)"

datatype magnitude = Zero | Finite nat int | Infinite

definition toDouble :: "nat \<Rightarrow> nat \<Rightarrow> magnitude" where
  "toDouble num den =
     (if num = 0 then Zero
      else
        (let b = max (floorLog2 num den - 52) (- 1074);
             m = (if b \<ge> 0 then roundHalfEven num (den * 2 ^ nat b)
                  else roundHalfEven (num * 2 ^ nat (- b)) den)
         in if m = 0 then Zero
            else if m = 2 ^ 53 then (if b + 1 > 971 then Infinite else Finite (2 ^ 52) (b + 1))
            else if b > 971 then Infinite
            else Finite m b))"

text \<open>
  The text of a number (\<^verbatim>\<open>Number::toString\<close>): the fewest decimal digits \<open>s\<close>, with an
  exponent \<open>t\<close>, such that \<open>s * 10 ^ t\<close> denotes the number; among several such, the nearest
  to the number, and the even one of two equally near. For a given count of digits the
  candidates are the two neighbours of the number with that many digits.
\<close>

definition validDigits :: "nat \<Rightarrow> int \<Rightarrow> nat \<Rightarrow> int \<Rightarrow> bool" where
  "validDigits m b s t = (case decimalFraction s t of (num, den) \<Rightarrow> toDouble num den = Finite m b)"

definition digitsOfLength :: "nat \<Rightarrow> int \<Rightarrow> nat \<Rightarrow> (nat \<times> int) option" where
  "digitsOfLength m b k =
     (case binaryFraction m b of
        (xn, xd) \<Rightarrow>
          (let t = floorLog10 xn xd + 1 - int k;
               lo = (if t \<ge> 0 then xn div (xd * 10 ^ nat t) else (xn * 10 ^ nat (- t)) div xd);
               hi = lo + 1;
               twice = (if t \<ge> 0 then 2 * xn else 2 * xn * 10 ^ nat (- t));
               middle = (if t \<ge> 0 then (2 * lo + 1) * 10 ^ nat t * xd else (2 * lo + 1) * xd)
           in if validDigits m b lo t \<and> validDigits m b hi t then
                (if twice < middle then Some (lo, t)
                 else if middle < twice then Some (hi, t)
                 else if even lo then Some (lo, t) else Some (hi, t))
              else if validDigits m b lo t then Some (lo, t)
              else if validDigits m b hi t then Some (hi, t)
              else None))"

text \<open>Seventeen digits denote every number, so the search ends before its bound.\<close>

fun shortestDigits :: "nat \<Rightarrow> int \<Rightarrow> nat \<Rightarrow> nat \<Rightarrow> nat \<times> int" where
  "shortestDigits m b k 0 = (m, b)"
| "shortestDigits m b k (Suc fuel) =
     (case digitsOfLength m b k of
        Some st \<Rightarrow> st
      | None \<Rightarrow> shortestDigits m b (Suc k) fuel)"

fun stripZeros :: "string \<Rightarrow> int \<Rightarrow> string \<times> int" where
  "stripZeros ds t =
     (if length ds > 1 \<and> last ds = CHR ''0'' then stripZeros (butlast ds) (t + 1) else (ds, t))"

declare stripZeros.simps [simp del]

text \<open>
  The digits \<open>ds\<close> with the decimal point after the \<open>n\<close>-th digit: plain notation when
  \<open>- 5 \<le> n \<le> 21\<close>, otherwise with an exponent.
\<close>

definition formatDigits :: "string \<Rightarrow> int \<Rightarrow> string" where
  "formatDigits ds n =
     (let k = int (length ds) in
      if - 5 \<le> n \<and> n \<le> 21 then
        (if k \<le> n then ds @ replicate (nat (n - k)) (CHR ''0'')
         else if 0 < n then take (nat n) ds @ ''.'' @ drop (nat n) ds
         else ''0.'' @ replicate (nat (- n)) (CHR ''0'') @ ds)
      else
        (let e = n - 1;
             ex = (if e < 0 then ''-'' else ''+'') @ natToDecimal (nat \<bar>e\<bar>)
         in if k = 1 then ds @ ''e'' @ ex
            else take 1 ds @ ''.'' @ drop 1 ds @ ''e'' @ ex))"

definition printFinite :: "nat \<Rightarrow> int \<Rightarrow> string" where
  "printFinite m b =
     (case shortestDigits m b 1 17 of
        (s, t) \<Rightarrow>
          (case stripZeros (natToDecimal s) t of
             (ds, t') \<Rightarrow> formatDigits ds (t' + int (length ds))))"

text \<open>
  The text of the number that a numeral denotes, from the sign, the digits of the integer
  part and of the fraction, and the exponent.
\<close>

definition numberText :: "bool \<Rightarrow> string \<Rightarrow> string \<Rightarrow> int \<Rightarrow> string" where
  "numberText negative i f e =
     (case decimalFraction (natOfDigits (i @ f)) (e - int (length f)) of
        (num, den) \<Rightarrow>
          (if negative then ''-'' else []) @
          (case toDouble num den of
             Zero \<Rightarrow> ''0''
           | Finite m b \<Rightarrow> printFinite m b
           | Infinite \<Rightarrow> ''Infinity''))"

text \<open>A numeral: optional minus, integer part without leading zeros, optional fraction and exponent.\<close>

definition parseDigits :: "string \<Rightarrow> (string \<times> string) option" where
  "parseDigits s =
     (if takeWhile isDigit s = [] then None
      else Some (takeWhile isDigit s, dropWhile isDigit s))"

definition parseInt :: "string \<Rightarrow> (string \<times> string) option" where
  "parseInt s =
     (case s of
        [] \<Rightarrow> None
      | c # cs \<Rightarrow> if c = CHR ''0'' then Some ([c], cs) else parseDigits s)"

definition parseFraction :: "string \<Rightarrow> (string \<times> string) option" where
  "parseFraction s =
     (case s of
        [] \<Rightarrow> Some ([], s)
      | c # cs \<Rightarrow> if c = CHR ''.'' then parseDigits cs else Some ([], s))"

definition parseExponent :: "string \<Rightarrow> (int \<times> string) option" where
  "parseExponent s =
     (case s of
        [] \<Rightarrow> Some (0, s)
      | c # cs \<Rightarrow>
          if c = CHR ''e'' \<or> c = CHR ''E'' then
            (case cs of
               [] \<Rightarrow> None
             | g # gs \<Rightarrow>
                 if g = CHR ''-'' then
                   map_option (\<lambda>(d, r). (- int (natOfDigits d), r)) (parseDigits gs)
                 else if g = CHR ''+'' then
                   map_option (\<lambda>(d, r). (int (natOfDigits d), r)) (parseDigits gs)
                 else map_option (\<lambda>(d, r). (int (natOfDigits d), r)) (parseDigits cs))
          else Some (0, s))"

definition parseNumber :: "string \<Rightarrow> (string \<times> string) option" where
  "parseNumber s =
     (let (negative, s1) =
            (case s of c # cs \<Rightarrow> if c = CHR ''-'' then (True, cs) else (False, s) | [] \<Rightarrow> (False, s))
      in case parseInt s1 of
           None \<Rightarrow> None
         | Some (i, s2) \<Rightarrow>
             (case parseFraction s2 of
                None \<Rightarrow> None
              | Some (f, s3) \<Rightarrow>
                  (case parseExponent s3 of
                     None \<Rightarrow> None
                   | Some (e, s4) \<Rightarrow> Some (numberText negative i f e, s4))))"

subsection \<open>Objects\<close>

text \<open>
  The runtime enumerates the members of an object with the array indices first (the names
  that are the decimal text of a number below \<open>2 ^ 32 - 1\<close>), in ascending order, and then
  the other names in the order in which they were added. A repeated name keeps its place and
  takes the later value.
\<close>

definition indexValue :: "nat list \<Rightarrow> nat" where
  "indexValue k = foldl (\<lambda>n c. 10 * n + (c - 48)) 0 k"

definition isArrayIndex :: "nat list \<Rightarrow> bool" where
  "isArrayIndex k =
     (k \<noteq> [] \<and> list_all (\<lambda>c. 48 \<le> c \<and> c \<le> 57) k \<and> (k = [48] \<or> hd k \<noteq> 48)
      \<and> indexValue k < 2 ^ 32 - 1)"

fun insertIndex :: "nat list \<Rightarrow> json \<Rightarrow> (nat list \<times> json) list \<Rightarrow> (nat list \<times> json) list" where
  "insertIndex k v [] = [(k, v)]"
| "insertIndex k v ((k', v') # ms) =
     (if isArrayIndex k' \<and> indexValue k' < indexValue k then (k', v') # insertIndex k v ms
      else (k, v) # (k', v') # ms)"

definition setMember :: "nat list \<Rightarrow> json \<Rightarrow> (nat list \<times> json) list \<Rightarrow> (nat list \<times> json) list" where
  "setMember k v ms =
     (if k \<in> fst ` set ms then AList.update k v ms
      else if isArrayIndex k then insertIndex k v ms
      else ms @ [(k, v)])"

subsection \<open>Values\<close>

text \<open>
  Values nest, so the parser recurses through arrays and objects. The first argument bounds
  the number of nested values and of elements and members that are read; \<open>parseJSON\<close> passes
  the length of the text, which they do not exceed.
\<close>

fun parseValue :: "nat \<Rightarrow> string \<Rightarrow> (json \<times> string) option"
  and parseElements :: "nat \<Rightarrow> json list \<Rightarrow> string \<Rightarrow> (json \<times> string) option"
  and parseMembers :: "nat \<Rightarrow> (nat list \<times> json) list \<Rightarrow> string \<Rightarrow> (json \<times> string) option" where
  "parseValue 0 s = None"
| "parseValue (Suc n) s =
     (case skipSpace s of
        [] \<Rightarrow> None
      | c # cs \<Rightarrow>
          if c = CHR ''{'' then
            (case skipSpace cs of
               [] \<Rightarrow> None
             | d # ds \<Rightarrow> if d = CHR ''}'' then Some (JObject [], ds) else parseMembers n [] cs)
          else if c = CHR ''['' then
            (case skipSpace cs of
               [] \<Rightarrow> None
             | d # ds \<Rightarrow> if d = CHR '']'' then Some (JArray [], ds) else parseElements n [] cs)
          else if c = CHR 0x22 then map_option (\<lambda>(v, r). (JString v, r)) (parseStringBody cs)
          else if prefix ''true'' (c # cs) then Some (JBool True, drop 4 (c # cs))
          else if prefix ''false'' (c # cs) then Some (JBool False, drop 5 (c # cs))
          else if prefix ''null'' (c # cs) then Some (JNull, drop 4 (c # cs))
          else map_option (\<lambda>(v, r). (JNumber v, r)) (parseNumber (c # cs)))"
| "parseElements 0 acc s = None"
| "parseElements (Suc n) acc s =
     (case parseValue n s of
        None \<Rightarrow> None
      | Some (v, r) \<Rightarrow>
          (case skipSpace r of
             [] \<Rightarrow> None
           | c # cs \<Rightarrow>
               if c = CHR '','' then parseElements n (acc @ [v]) cs
               else if c = CHR '']'' then Some (JArray (acc @ [v]), cs)
               else None))"
| "parseMembers 0 acc s = None"
| "parseMembers (Suc n) acc s =
     (case skipSpace s of
        [] \<Rightarrow> None
      | q # qs \<Rightarrow>
          if q \<noteq> CHR 0x22 then None
          else
            (case parseStringBody qs of
               None \<Rightarrow> None
             | Some (k, r) \<Rightarrow>
                 (case skipSpace r of
                    [] \<Rightarrow> None
                  | c # cs \<Rightarrow>
                      if c \<noteq> CHR '':'' then None
                      else
                        (case parseValue n cs of
                           None \<Rightarrow> None
                         | Some (v, r') \<Rightarrow>
                             (case skipSpace r' of
                                [] \<Rightarrow> None
                              | d # ds \<Rightarrow>
                                  if d = CHR '','' then parseMembers n (setMember k v acc) ds
                                  else if d = CHR ''}'' then Some (JObject (setMember k v acc), ds)
                                  else None)))))"

text \<open>\<^verbatim>\<open>JSON.parse\<close>: one value, with nothing but white space after it.\<close>

definition parseJSON :: "string \<Rightarrow> json option" where
  "parseJSON s =
     (case parseValue (Suc (length s)) s of
        None \<Rightarrow> None
      | Some (v, r) \<Rightarrow> if skipSpace r = [] then Some v else None)"

text \<open>
  Modelled from the spec: \<^verbatim>\<open>tryParseJSONObject\<close> is imported from \<^verbatim>\<open>./utils\<close>, which is not
  among the sources. The specification says of it that the argument accumulator
  ``must parse as a well-formed structured value''; the callers use the value as the
  structured arguments of a tool call, so the result is a value exactly when the text is
  well-formed JSON whose value is an object.
\<close>

definition tryParseJSONObject :: "string \<Rightarrow> json option" where
  "tryParseJSONObject s =
     (case parseJSON s of
        Some (JObject members) \<Rightarrow> Some (JObject members)
      | _ \<Rightarrow> None)"

subsection \<open>Serialisation\<close>

text \<open>
  \<^verbatim>\<open>JSON.stringify\<close> of a parsed value: the compact text, as code units. In a string the
  quote, the backslash and the control characters are escaped, and so is a surrogate that is
  not half of a pair. A number that is not finite becomes \<^verbatim>\<open>null\<close>, and the negative zero
  becomes \<^verbatim>\<open>0\<close>.
\<close>

definition hexDigits4 :: "nat \<Rightarrow> nat list" where
  "hexDigits4 n =
     map (\<lambda>d. of_char (''0123456789abcdef'' ! d))
       [n div 4096 mod 16, n div 256 mod 16, n div 16 mod 16, n mod 16]"

definition escapeUnit :: "nat \<Rightarrow> nat list" where
  "escapeUnit c = [0x5C, 0x75] @ hexDigits4 c"

fun quoteUnits :: "nat list \<Rightarrow> nat list" where
  "quoteUnits [] = []"
| "quoteUnits (c # cs) =
     (if c = 0x22 then [0x5C, 0x22] @ quoteUnits cs
      else if c = 0x5C then [0x5C, 0x5C] @ quoteUnits cs
      else if c = 0x08 then [0x5C, 0x62] @ quoteUnits cs
      else if c = 0x0C then [0x5C, 0x66] @ quoteUnits cs
      else if c = 0x0A then [0x5C, 0x6E] @ quoteUnits cs
      else if c = 0x0D then [0x5C, 0x72] @ quoteUnits cs
      else if c = 0x09 then [0x5C, 0x74] @ quoteUnits cs
      else if c < 0x20 then escapeUnit c @ quoteUnits cs
      else if 0xD800 \<le> c \<and> c \<le> 0xDBFF then
        (case cs of
           d # ds \<Rightarrow>
             if 0xDC00 \<le> d \<and> d \<le> 0xDFFF then c # d # quoteUnits ds
             else escapeUnit c @ quoteUnits cs
         | [] \<Rightarrow> escapeUnit c)
      else if 0xDC00 \<le> c \<and> c \<le> 0xDFFF then escapeUnit c @ quoteUnits cs
      else c # quoteUnits cs)"

definition quoteString :: "nat list \<Rightarrow> nat list" where
  "quoteString s = [0x22] @ quoteUnits s @ [0x22]"

fun commaSeparated :: "nat list list \<Rightarrow> nat list" where
  "commaSeparated [] = []"
| "commaSeparated [x] = x"
| "commaSeparated (x # y # ys) = x @ [0x2C] @ commaSeparated (y # ys)"

fun stringify :: "json \<Rightarrow> nat list" where
  "stringify JNull = codeUnits ''null''"
| "stringify (JBool b) = codeUnits (if b then ''true'' else ''false'')"
| "stringify (JNumber n) =
     codeUnits (if n = ''Infinity'' \<or> n = ''-Infinity'' then ''null''
                else if n = ''-0'' then ''0'' else n)"
| "stringify (JString s) = quoteString s"
| "stringify (JArray vs) = [0x5B] @ commaSeparated (map stringify vs) @ [0x5D]"
| "stringify (JObject ms) =
     [0x7B] @ commaSeparated (map (\<lambda>(k, v). quoteString k @ [0x3A] @ stringify v) ms) @ [0x7D]"

text \<open>
  The truth value of a parsed value in a condition: \<^verbatim>\<open>null\<close>, \<^verbatim>\<open>false\<close>, the zeros and the
  empty string count as false.
\<close>

definition truthyValue :: "json \<Rightarrow> bool" where
  "truthyValue v =
     (case v of
        JNull \<Rightarrow> False
      | JBool b \<Rightarrow> b
      | JNumber n \<Rightarrow> n \<noteq> ''0'' \<and> n \<noteq> ''-0''
      | JString s \<Rightarrow> s \<noteq> []
      | JArray vs \<Rightarrow> True
      | JObject ms \<Rightarrow> True)"

section \<open>The stream reconstructor of the chat provider (provider.ts)\<close>

subsection \<open>Data\<close>

text \<open>
  A JavaScript condition on a string that may be absent (\<^verbatim>\<open>if (x)\<close>, \<^verbatim>\<open>x && ...\<close>) holds when
  the string is present and not empty.
\<close>

definition truthy :: "string option \<Rightarrow> bool" where
  "truthy x = (case x of None \<Rightarrow> False | Some s \<Rightarrow> s \<noteq> [])"

text \<open>
  The parts reported to the chat surface: \<^verbatim>\<open>LanguageModelTextPart(value)\<close>,
  \<^verbatim>\<open>LanguageModelThinkingPart(value, id, metadata)\<close> and
  \<^verbatim>\<open>LanguageModelToolCallPart(callId, name, input)\<close>.
\<close>

record ThinkingMetadata =
  mdFormat :: "string option"
  mdType :: "string option"
  mdIndex :: "int option"
  mdSignature :: "string option"
  mdData :: "string option"

datatype LanguageModelResponsePart =
    LanguageModelTextPart string
  | LanguageModelThinkingPart string "string option" "ThinkingMetadata option"
  | LanguageModelToolCallPart string string json

text \<open>
  A report is a part handed to \<^verbatim>\<open>progress.report\<close>, paired with the key of the tool-call
  buffer it was emitted for (\<open>None\<close> for a part that does not come from a buffer). The chat
  surface receives the second component; the first is used to count the tool calls of a key.
\<close>

type_synonym report = "nat option \<times> LanguageModelResponsePart"

text \<open>
  The decoded delta. \<^verbatim>\<open>ReasoningDetail\<close> is declared in \<^verbatim>\<open>./types\<close>, which is not among the
  sources; the fields are the ones the code reads. \<open>rdJson\<close> is \<^verbatim>\<open>JSON.stringify(detail)\<close>.
\<close>

record ReasoningDetail =
  rdType :: string
  rdIndex :: "int option"
  rdFormat :: "string option"
  rdText :: string
  rdSummary :: string
  rdSignature :: "string option"
  rdData :: "string option"
  rdJson :: string

datatype LegacyThinking =
    ThinkingString string
  | ThinkingObject "string option" "ThinkingMetadata option" string

record ToolCallDelta =
  tcIndex :: "nat option"
  tcId :: "string option"
  tcName :: "string option"
  tcArguments :: "string option"
  tcThoughtSignature :: "string option"

text \<open>
  \<open>legacyThinking\<close> is \<^verbatim>\<open>choice.thinking ?? delta.thinking ?? delta.reasoning_content\<close>,
  \<open>reasoningDetails\<close> is \<^verbatim>\<open>delta.reasoning_details ?? choice.reasoning_details\<close> (empty when
  absent or not an array), \<open>deltaContent\<close> is \<^verbatim>\<open>delta.content\<close>, \<open>toolCalls\<close> is
  \<^verbatim>\<open>delta.tool_calls\<close>, \<open>finishReason\<close> is \<^verbatim>\<open>choice.finish_reason\<close>.
\<close>

record Choice =
  legacyThinking :: "LegacyThinking option"
  reasoningDetails :: "ReasoningDetail list"
  deltaContent :: "string option"
  toolCalls :: "ToolCallDelta list option"
  finishReason :: "string option"

text \<open>
  A line of the event stream after decoding: the \<^verbatim>\<open>[DONE]\<close> marker, or a data line, which
  holds a choice or nothing the provider acts on (no \<^verbatim>\<open>choices[0]\<close>, or text that is not JSON,
  which is ignored).
\<close>

datatype SseLine = DoneLine | DataLine "Choice option"

text \<open>
  What the provider takes from outside: the parser of argument text (\<^verbatim>\<open>tryParseJSONObject\<close>
  of \<^verbatim>\<open>./utils\<close>), and the two sources of random identifiers, as functions of the number of
  identifiers drawn so far (\<^verbatim>\<open>Math.random\<close> and \<^verbatim>\<open>Date.now\<close> in the code).
\<close>

record Host =
  parseArguments :: "string \<Rightarrow> json option"
  randomCallSuffix :: "nat \<Rightarrow> string"
  randomThinkingId :: "nat \<Rightarrow> string"

definition exampleHost :: Host where
  "exampleHost = \<lparr> parseArguments = tryParseJSONObject,
     randomCallSuffix = (\<lambda>n. replicate (Suc n) (CHR ''r'')),
     randomThinkingId = (\<lambda>n. ''thinking_'' @ replicate (Suc n) (CHR ''i'')) \<rparr>"

subsection \<open>State\<close>

record ToolCallBuffer =
  bufId :: "string option"
  bufName :: "string option"
  args :: string
  thoughtSignature :: "string option"

text \<open>
  The fields of \<^verbatim>\<open>HuggingFaceChatModelProvider\<close> that the stream processing reads.
  \<^verbatim>\<open>_toolCallBuffers\<close> is a \<^verbatim>\<open>Map\<close>, which iterates in insertion order: an association list,
  updated in place for a key it has and extended at the end for a new one.
  Left out are fields that are only written on this path: \<^verbatim>\<open>_emittedTextToolCallKeys\<close>,
  \<^verbatim>\<open>_currentResponseReasoningDetails\<close> and \<^verbatim>\<open>_reasoningDetailsMap\<close> (the latter two feed the
  \<^verbatim>\<open>reasoning_details\<close> of a later request, not the parts and not the identifiers), and
  \<^verbatim>\<open>_textToolActive\<close>, which is never set.
\<close>

record Provider =
  toolCallBuffers :: "(nat \<times> ToolCallBuffer) list"
  completedToolCallIndices :: "nat set"
  hasEmittedAssistantText :: bool
  emittedBeginToolCallsHint :: bool
  xmlThinkActive :: bool
  xmlThinkDetectionAttempted :: bool
  currentThinkingId :: "string option"
  currentReasoningSignature :: "string option"
  randomDraws :: nat

text \<open>The state at the start of \<^verbatim>\<open>provideLanguageModelChatResponse\<close>.\<close>

definition newProvider :: Provider where
  "newProvider = \<lparr> toolCallBuffers = [], completedToolCallIndices = {},
     hasEmittedAssistantText = False, emittedBeginToolCallsHint = False,
     xmlThinkActive = False, xmlThinkDetectionAttempted = False,
     currentThinkingId = None, currentReasoningSignature = None, randomDraws = 0 \<rparr>"

datatype error = InvalidToolCallJSON

definition SIG_SEPARATOR :: string where
  "SIG_SEPARATOR = ''::gemini_sig::''"

definition THINK_START :: string where
  "THINK_START = ''<think>''"

definition THINK_END :: string where
  "THINK_END = ''</think>''"

subsection \<open>Thinking parts\<close>

text \<open>\<^verbatim>\<open>if (!this._currentThinkingId) this._currentThinkingId = this.generateThinkingId()\<close>.\<close>

definition ensureThinkingId :: "Host \<Rightarrow> Provider \<Rightarrow> string \<times> Provider" where
  "ensureThinkingId h st =
     (if truthy (currentThinkingId st) then (the (currentThinkingId st), st)
      else (randomThinkingId h (randomDraws st),
            st\<lparr> currentThinkingId := Some (randomThinkingId h (randomDraws st)),
                randomDraws := Suc (randomDraws st) \<rparr>))"

text \<open>
  The body of the loop over the sorted reasoning details in \<^verbatim>\<open>processDelta\<close>, for one detail
  (lines 514 to 539; the merge into \<^verbatim>\<open>_currentResponseReasoningDetails\<close> before it is left
  out with that field).
\<close>

definition processReasoningDetail :: "Host \<Rightarrow> Provider \<Rightarrow> ReasoningDetail \<Rightarrow> Provider \<times> report list" where
  "processReasoningDetail h st detail =
     (let signed = (rdType detail = ''reasoning.text'' \<and> truthy (rdSignature detail));
          st1 = (if signed then st\<lparr> currentReasoningSignature := rdSignature detail \<rparr> else st);
          extractedText =
            (if rdType detail = ''reasoning.summary'' then rdSummary detail
             else if rdType detail = ''reasoning.text'' then rdText detail
             else if rdType detail = ''reasoning.encrypted'' then ''[REDACTED]''
             else rdJson detail)
      in if extractedText \<noteq> [] then
           (case ensureThinkingId h st1 of
              (thinkingId, st2) \<Rightarrow>
                (st2,
                 [(None, LanguageModelThinkingPart extractedText (Some thinkingId)
                    (Some \<lparr> mdFormat = rdFormat detail, mdType = Some (rdType detail),
                             mdIndex = rdIndex detail,
                             mdSignature = (if signed then rdSignature detail else None),
                             mdData = (if rdType detail = ''reasoning.encrypted''
                                          \<and> truthy (rdData detail)
                                       then rdData detail else None) \<rparr>))]))
         else (st1, []))"

fun processReasoningDetails ::
  "Host \<Rightarrow> Provider \<Rightarrow> ReasoningDetail list \<Rightarrow> Provider \<times> report list" where
  "processReasoningDetails h st [] = (st, [])"
| "processReasoningDetails h st (detail # details) =
     (case processReasoningDetail h st detail of
        (st1, out1) \<Rightarrow>
          (case processReasoningDetails h st1 details of
             (st2, out2) \<Rightarrow> (st2, out1 @ out2)))"

text \<open>\<^verbatim>\<open>details.sort((a, b) => (a.index ?? 0) - (b.index ?? 0))\<close>, a stable sort.\<close>

definition sortDetails :: "ReasoningDetail list \<Rightarrow> ReasoningDetail list" where
  "sortDetails details = sort_key (\<lambda>d. case rdIndex d of None \<Rightarrow> 0 | Some i \<Rightarrow> i) details"

text \<open>The legacy single thinking field (lines 544 to 559).\<close>

definition processLegacyThinking :: "Host \<Rightarrow> Provider \<Rightarrow> LegacyThinking \<Rightarrow> Provider \<times> report list" where
  "processLegacyThinking h st maybeThinking =
     (let (text, metadata) =
            (case maybeThinking of
               ThinkingString s \<Rightarrow> (s, None)
             | ThinkingObject t m j \<Rightarrow> ((case t of Some s \<Rightarrow> s | None \<Rightarrow> j), m))
      in if text \<noteq> [] then
           (case ensureThinkingId h st of
              (thinkingId, st1) \<Rightarrow>
                (st1, [(None, LanguageModelThinkingPart text (Some thinkingId) metadata)]))
         else (st, []))"

subsection \<open>Text content and think tags\<close>

text \<open>
  The loop of \<^verbatim>\<open>processXmlThinkBlocks\<close>, on the rest of the data, the parts reported so far
  and \<^verbatim>\<open>emittedAny\<close>. \<^verbatim>\<open>this._currentThinkingId || undefined\<close> is the identifier when it is
  present and not empty.
\<close>

definition idOrUndefined :: "string option \<Rightarrow> string option" where
  "idOrUndefined x = (if truthy x then x else None)"

function xmlThinkLoop ::
  "Host \<Rightarrow> Provider \<Rightarrow> string \<Rightarrow> report list \<Rightarrow> bool \<Rightarrow> Provider \<times> report list \<times> bool" where
  "xmlThinkLoop h st data out emittedAny =
     (if data = [] then (st, out, emittedAny)
      else if \<not> xmlThinkActive st then
        (case indexOf data THINK_START of
           None \<Rightarrow> (st\<lparr> xmlThinkDetectionAttempted := True \<rparr>, out, emittedAny)
         | Some startIdx \<Rightarrow>
             xmlThinkLoop h
               (st\<lparr> xmlThinkActive := True,
                    currentThinkingId := Some (randomThinkingId h (randomDraws st)),
                    randomDraws := Suc (randomDraws st) \<rparr>)
               (drop (startIdx + length THINK_START) data) out emittedAny)
      else
        (case indexOf data THINK_END of
           None \<Rightarrow>
             (if trim data \<noteq> [] then
                (st, out @ [(None, LanguageModelThinkingPart (trim data)
                               (idOrUndefined (currentThinkingId st)) None)], True)
              else (st, out, emittedAny))
         | Some endIdx \<Rightarrow>
             xmlThinkLoop h
               (st\<lparr> xmlThinkActive := False, currentThinkingId := None \<rparr>)
               (drop (endIdx + length THINK_END) data)
               (if take endIdx data \<noteq> [] then
                  out @ [(None, LanguageModelThinkingPart (take endIdx data)
                                  (idOrUndefined (currentThinkingId st)) None)]
                else out)
               (if take endIdx data \<noteq> [] then True else emittedAny)))"
  by pat_completeness auto
termination
  by (relation "measure (\<lambda>(h, st, data, out, emittedAny). length data)")
     (auto simp: THINK_START_def THINK_END_def)

declare xmlThinkLoop.simps [simp del]

definition processXmlThinkBlocks :: "Host \<Rightarrow> Provider \<Rightarrow> string \<Rightarrow> Provider \<times> report list \<times> bool" where
  "processXmlThinkBlocks h st input =
     (if xmlThinkDetectionAttempted st \<and> \<not> xmlThinkActive st then (st, [], False)
      else xmlThinkLoop h st input [] False)"

text \<open>\<^verbatim>\<open>processTextContent\<close>: the parts, and \<^verbatim>\<open>emittedText\<close>.\<close>

definition processTextContent :: "string \<Rightarrow> report list \<times> bool" where
  "processTextContent input =
     (if input \<noteq> [] then ([(None, LanguageModelTextPart input)], True) else ([], False))"

text \<open>The branch \<^verbatim>\<open>if (deltaObj?.content)\<close> of \<^verbatim>\<open>processDelta\<close> (lines 565 to 583).\<close>

definition processContent :: "Host \<Rightarrow> Provider \<Rightarrow> string \<Rightarrow> Provider \<times> report list" where
  "processContent h st input =
     (case processXmlThinkBlocks h st input of
        (st1, out1, emittedAny) \<Rightarrow>
          if emittedAny then (st1, out1)
          else
            (let closing = (trim input \<noteq> [] \<and> truthy (currentThinkingId st1));
                 out2 = (if closing
                         then [(None, LanguageModelThinkingPart [] (currentThinkingId st1) None)]
                         else []);
                 st2 = (if closing then st1\<lparr> currentThinkingId := None \<rparr> else st1)
             in case processTextContent input of
                  (out3, emittedText) \<Rightarrow>
                    ((if emittedText then st2\<lparr> hasEmittedAssistantText := True \<rparr> else st2),
                     out1 @ out2 @ out3)))"

subsection \<open>Tool-call buffers\<close>

text \<open>
  The identifier under which a buffered call is reported: the buffered one, or a random one,
  followed by the separator and the thought signature when the buffer has a signature.
\<close>

definition callIdOf :: "Host \<Rightarrow> Provider \<Rightarrow> ToolCallBuffer \<Rightarrow> string \<times> Provider" where
  "callIdOf h st buf =
     (case bufId buf of
        Some i \<Rightarrow> (i, st)
      | None \<Rightarrow> (''call_'' @ randomCallSuffix h (randomDraws st),
                 st\<lparr> randomDraws := Suc (randomDraws st) \<rparr>))"

definition finalIdOf :: "string \<Rightarrow> ToolCallBuffer \<Rightarrow> string" where
  "finalIdOf i buf =
     (if truthy (thoughtSignature buf) then i @ SIG_SEPARATOR @ the (thoughtSignature buf) else i)"

definition tryEmitBufferedToolCall :: "Host \<Rightarrow> Provider \<Rightarrow> nat \<Rightarrow> Provider \<times> report list" where
  "tryEmitBufferedToolCall h st index =
     (case map_of (toolCallBuffers st) index of
        None \<Rightarrow> (st, [])
      | Some buf \<Rightarrow>
          if \<not> truthy (bufName buf) then (st, [])
          else
            (case parseArguments h (args buf) of
               None \<Rightarrow> (st, [])
             | Some parameters \<Rightarrow>
                 (case callIdOf h st buf of
                    (i, st1) \<Rightarrow>
                      (st1\<lparr> toolCallBuffers := AList.delete index (toolCallBuffers st1),
                            completedToolCallIndices :=
                              insert index (completedToolCallIndices st1) \<rparr>,
                       [(Some index,
                         LanguageModelToolCallPart (finalIdOf i buf) (the (bufName buf))
                           parameters)]))))"

text \<open>
  \<^verbatim>\<open>flushToolCallBuffers(progress, throwOnInvalid)\<close>: the loop over the entries the map had at
  the call, in order. The \<^verbatim>\<open>throw\<close> ends the loop; the third component is the error raised.
\<close>

fun flushEntries ::
  "Host \<Rightarrow> bool \<Rightarrow> (nat \<times> ToolCallBuffer) list \<Rightarrow> Provider
     \<Rightarrow> Provider \<times> report list \<times> error option" where
  "flushEntries h throwOnInvalid [] st = (st, [], None)"
| "flushEntries h throwOnInvalid ((idx, buf) # entries) st =
     (case parseArguments h (args buf) of
        None \<Rightarrow>
          if throwOnInvalid then (st, [], Some InvalidToolCallJSON)
          else flushEntries h throwOnInvalid entries st
      | Some parsed \<Rightarrow>
          (case callIdOf h st buf of
             (i, st1) \<Rightarrow>
               (case flushEntries h throwOnInvalid entries
                       (st1\<lparr> toolCallBuffers := AList.delete idx (toolCallBuffers st1),
                             completedToolCallIndices :=
                               insert idx (completedToolCallIndices st1) \<rparr>) of
                  (st2, out, err) \<Rightarrow>
                    (st2,
                     (Some idx,
                      LanguageModelToolCallPart (finalIdOf i buf)
                        (case bufName buf of Some n \<Rightarrow> n | None \<Rightarrow> ''unknown_tool'') parsed)
                     # out,
                     err))))"

definition flushToolCallBuffers ::
  "Host \<Rightarrow> Provider \<Rightarrow> bool \<Rightarrow> Provider \<times> report list \<times> error option" where
  "flushToolCallBuffers h st throwOnInvalid =
     flushEntries h throwOnInvalid (toolCallBuffers st) st"

text \<open>The body of the loop over \<^verbatim>\<open>delta.tool_calls\<close> (lines 595 to 626), for one fragment.\<close>

definition processToolCall :: "Host \<Rightarrow> Provider \<Rightarrow> ToolCallDelta \<Rightarrow> Provider \<times> report list" where
  "processToolCall h st tc =
     (let idx = (case tcIndex tc of Some i \<Rightarrow> i | None \<Rightarrow> 0) in
      if idx \<in> completedToolCallIndices st then (st, [])
      else
        (let buf0 = (case map_of (toolCallBuffers st) idx of
                       Some b \<Rightarrow> b
                     | None \<Rightarrow> \<lparr> bufId = None, bufName = None, args = [],
                                  thoughtSignature = None \<rparr>);
             buf1 = (if truthy (tcId tc) then buf0\<lparr> bufId := tcId tc \<rparr> else buf0);
             buf2 = (if truthy (tcName tc) then buf1\<lparr> bufName := tcName tc \<rparr> else buf1);
             buf3 = (case tcArguments tc of
                       Some a \<Rightarrow> buf2\<lparr> args := args buf2 @ a \<rparr>
                     | None \<Rightarrow> buf2);
             buf4 = (case tcThoughtSignature tc of
                       Some s \<Rightarrow> buf3\<lparr> thoughtSignature := Some s \<rparr>
                     | None \<Rightarrow>
                         if truthy (currentReasoningSignature st)
                         then buf3\<lparr> thoughtSignature := currentReasoningSignature st \<rparr>
                         else buf3)
         in tryEmitBufferedToolCall h
              (st\<lparr> toolCallBuffers := AList.update idx buf4 (toolCallBuffers st) \<rparr>) idx))"

fun processToolCalls :: "Host \<Rightarrow> Provider \<Rightarrow> ToolCallDelta list \<Rightarrow> Provider \<times> report list" where
  "processToolCalls h st [] = (st, [])"
| "processToolCalls h st (tc # tcs) =
     (case processToolCall h st tc of
        (st1, out1) \<Rightarrow>
          (case processToolCalls h st1 tcs of
             (st2, out2) \<Rightarrow> (st2, out1 @ out2)))"

text \<open>The branch \<^verbatim>\<open>if (deltaObj?.tool_calls)\<close> (lines 586 to 628).\<close>

definition processToolCallsDelta ::
  "Host \<Rightarrow> Provider \<Rightarrow> ToolCallDelta list \<Rightarrow> Provider \<times> report list" where
  "processToolCallsDelta h st tcs =
     (let hint = (\<not> emittedBeginToolCallsHint st \<and> hasEmittedAssistantText st \<and> tcs \<noteq> []);
          st1 = (if hint then st\<lparr> emittedBeginToolCallsHint := True \<rparr> else st)
      in case processToolCalls h st1 tcs of
           (st2, out) \<Rightarrow>
             (st2, (if hint then [(None, LanguageModelTextPart '' '')] else []) @ out))"

subsection \<open>A delta and a stream\<close>

text \<open>
  \<^verbatim>\<open>processDelta\<close> for a delta with a choice. The result is the state, the parts reported, and
  the error it raises (only the flush at a finish marker raises one). The boolean the code
  returns is not used by its caller.
\<close>

definition processDelta :: "Host \<Rightarrow> Provider \<Rightarrow> Choice \<Rightarrow> Provider \<times> report list \<times> error option" where
  "processDelta h st choice =
     (case (if reasoningDetails choice \<noteq> []
            then processReasoningDetails h st (sortDetails (reasoningDetails choice))
            else (case legacyThinking choice of
                    None \<Rightarrow> (st, [])
                  | Some maybeThinking \<Rightarrow> processLegacyThinking h st maybeThinking)) of
        (st1, out1) \<Rightarrow>
          (case (if truthy (deltaContent choice)
                 then processContent h st1 (the (deltaContent choice))
                 else (st1, [])) of
             (st2, out2) \<Rightarrow>
               (case (case toolCalls choice of
                        None \<Rightarrow> (st2, [])
                      | Some tcs \<Rightarrow> processToolCallsDelta h st2 tcs) of
                  (st3, out3) \<Rightarrow>
                    if finishReason choice = Some ''tool_calls'' \<or> finishReason choice = Some ''stop''
                    then (case flushToolCallBuffers h st3 True of
                            (st4, out4, err) \<Rightarrow> (st4, out1 @ out2 @ out3 @ out4, err))
                    else (st3, out1 @ out2 @ out3, None))))"

text \<open>
  The loop over the lines in \<^verbatim>\<open>processStreamingResponse\<close>. An error raised by
  \<^verbatim>\<open>processDelta\<close> is caught and ignored there; the state changes and the parts reported before
  it remain. The lines are the ones read before the stream ends or the request is cancelled.
\<close>

fun processLines :: "Host \<Rightarrow> Provider \<Rightarrow> SseLine list \<Rightarrow> Provider \<times> report list" where
  "processLines h st [] = (st, [])"
| "processLines h st (DoneLine # ls) =
     (case flushToolCallBuffers h st False of
        (st1, out1, err) \<Rightarrow>
          (case processLines h st1 ls of (st2, out2) \<Rightarrow> (st2, out1 @ out2)))"
| "processLines h st (DataLine None # ls) = processLines h st ls"
| "processLines h st (DataLine (Some choice) # ls) =
     (case processDelta h st choice of
        (st1, out1, err) \<Rightarrow>
          (case processLines h st1 ls of (st2, out2) \<Rightarrow> (st2, out1 @ out2)))"

text \<open>The parts a whole response stream reports, from the state at the start of a request.\<close>

definition processStreamingResponse :: "Host \<Rightarrow> SseLine list \<Rightarrow> report list" where
  "processStreamingResponse h ls = snd (processLines h newProvider ls)"

subsection \<open>Identifiers of a later request\<close>

text \<open>\<^verbatim>\<open>s.split(sep)\<close> for a separator that is not empty.\<close>

lemma splitStr_shrinks:
  "sep \<noteq> [] \<Longrightarrow> indexOf s sep = Some i \<Longrightarrow> length s - (i + length sep) < length s"
  by (cases sep) (auto dest: indexOf_le)

function splitStr :: "'a list \<Rightarrow> 'a list \<Rightarrow> 'a list list" where
  "splitStr s sep =
     (if sep = [] then map (\<lambda>c. [c]) s
      else (case indexOf s sep of
              None \<Rightarrow> [s]
            | Some i \<Rightarrow> take i s # splitStr (drop (i + length sep) s) sep))"
  by pat_completeness auto
termination
  by (relation "measure (\<lambda>(s, sep). length s)") (auto simp: splitStr_shrinks)

declare splitStr.simps [simp del]

text \<open>
  The tool call of an assistant message of the request: its \<^verbatim>\<open>id\<close> and
  \<^verbatim>\<open>provider_specific_fields.thought_signature\<close>. The loop of
  \<^verbatim>\<open>provideLanguageModelChatResponse\<close> (lines 204 to 246) decodes identifiers that contain the
  separator; the injection of \<^verbatim>\<open>reasoning_details\<close> in the same loop does not touch either
  field and is left out.
\<close>

record OpenAIToolCall =
  toolCallId :: string
  providerThoughtSignature :: "string option"

datatype OpenAIMessage =
    AssistantMessage "OpenAIToolCall list option"
  | ToolMessage string
  | OtherMessage

definition restoreToolCall :: "OpenAIToolCall \<Rightarrow> OpenAIToolCall" where
  "restoreToolCall tc =
     (if includesStr (toolCallId tc) SIG_SEPARATOR then
        (case splitStr (toolCallId tc) SIG_SEPARATOR of
           realId # signature # rest \<Rightarrow>
             if realId \<noteq> [] \<and> signature \<noteq> []
             then tc\<lparr> toolCallId := realId, providerThoughtSignature := Some signature \<rparr>
             else tc
         | _ \<Rightarrow> tc)
      else tc)"

definition restoreMessage :: "OpenAIMessage \<Rightarrow> OpenAIMessage" where
  "restoreMessage msg =
     (case msg of
        AssistantMessage (Some tcs) \<Rightarrow> AssistantMessage (Some (map restoreToolCall tcs))
      | ToolMessage tool_call_id \<Rightarrow>
          (if includesStr tool_call_id SIG_SEPARATOR then
             (case splitStr tool_call_id SIG_SEPARATOR of
                realId # rest \<Rightarrow> if realId \<noteq> [] then ToolMessage realId else msg
              | _ \<Rightarrow> msg)
           else msg)
      | _ \<Rightarrow> msg)"

subsection \<open>Deltas of the scenarios\<close>

text \<open>A delta with nothing in it, one that carries only content, and one that carries one
  tool-call fragment.\<close>

definition emptyChoice :: Choice where
  "emptyChoice = \<lparr> legacyThinking = None, reasoningDetails = [], deltaContent = None,
     toolCalls = None, finishReason = None \<rparr>"

definition contentDelta :: "string \<Rightarrow> SseLine" where
  "contentDelta s = DataLine (Some (emptyChoice\<lparr> deltaContent := Some s \<rparr>))"

definition toolCallDelta :: "nat \<Rightarrow> string option \<Rightarrow> string option \<Rightarrow> string \<Rightarrow> SseLine" where
  "toolCallDelta index i name arguments =
     DataLine (Some (emptyChoice\<lparr> toolCalls :=
       Some [\<lparr> tcIndex = Some index, tcId = i, tcName = name, tcArguments = Some arguments,
               tcThoughtSignature = None \<rparr>] \<rparr>))"

definition finishDelta :: "string \<Rightarrow> SseLine" where
  "finishDelta reason = DataLine (Some (emptyChoice\<lparr> finishReason := Some reason \<rparr>))"

subsection \<open>Notions used in the statements\<close>

text \<open>
  \<open>reportsFor index out\<close> counts the parts reported for the buffer key \<open>index\<close>.
  \<open>buffersOk\<close> is the shape the buffers have in every state the provider reaches: one
  buffer per key, and none for a key that is marked complete. \<open>parses h\<close> says that the
  argument text of a buffer entry parses.
\<close>

definition reportsFor :: "nat \<Rightarrow> report list \<Rightarrow> nat" where
  "reportsFor index out = length (filter (\<lambda>r. fst r = Some index) out)"

definition buffersOk :: "Provider \<Rightarrow> bool" where
  "buffersOk st =
     (distinct (map fst (toolCallBuffers st))
      \<and> (\<forall>i \<in> completedToolCallIndices st. map_of (toolCallBuffers st) i = None))"

definition parses :: "Host \<Rightarrow> nat \<times> ToolCallBuffer \<Rightarrow> bool" where
  "parses h entry = (parseArguments h (args (snd entry)) \<noteq> None)"

text \<open>
  \<open>accounted st out st'\<close> relates a state, the parts reported from it, and the state
  reached: the keys marked complete only grow, and the parts reported for a key number one if
  the key was newly marked complete and none otherwise.
\<close>

definition accounted :: "Provider \<Rightarrow> report list \<Rightarrow> Provider \<Rightarrow> bool" where
  "accounted st out st' =
     (buffersOk st'
      \<and> completedToolCallIndices st \<subseteq> completedToolCallIndices st'
      \<and> (\<forall>index. reportsFor index out =
            (if index \<in> completedToolCallIndices st' - completedToolCallIndices st then 1 else 0)))"

text \<open>
  \<open>sameCalls st st'\<close>: the buffers and the completed keys are the same in both states.
  \<open>labelled r\<close>: a report carries a buffer key exactly when its part is a tool call.
\<close>

definition sameCalls :: "Provider \<Rightarrow> Provider \<Rightarrow> bool" where
  "sameCalls st st' =
     (toolCallBuffers st' = toolCallBuffers st
      \<and> completedToolCallIndices st' = completedToolCallIndices st)"

definition labelled :: "report \<Rightarrow> bool" where
  "labelled r =
     (case snd r of
        LanguageModelToolCallPart callId name input \<Rightarrow> fst r \<noteq> None
      | _ \<Rightarrow> fst r = None)"

section \<open>The variant of the provider with reasoning coalescing (source part 001)\<close>

text \<open>
  The second version of \<^verbatim>\<open>provider.ts\<close> among the sources buffers unsigned reasoning text,
  puts the signature into the metadata of the thinking part, and keys its tool-call buffers
  by the identifier of the call. Its definitions carry the suffix \<open>C\<close> where the name is
  already taken by the first version.
\<close>

subsection \<open>Data and state\<close>

text \<open>
  A tool-call fragment as this version reads it: \<^verbatim>\<open>id\<close>, \<^verbatim>\<open>function.name\<close>,
  \<^verbatim>\<open>function.arguments\<close> and the \<^verbatim>\<open>thought\<close> of \<^verbatim>\<open>x-provider\<close>.
\<close>

record ToolCallDeltaC =
  tcIdC :: "string option"
  tcNameC :: "string option"
  tcArgumentsC :: "string option"
  tcThoughtC :: "json option"

record ChoiceC =
  legacyThinkingC :: "LegacyThinking option"
  reasoningDetailsC :: "ReasoningDetail list"
  deltaContentC :: "string option"
  toolCallsC :: "ToolCallDeltaC list option"
  finishReasonC :: "string option"

datatype SseLineC = DoneLineC | DataLineC "ChoiceC option"

text \<open>The buffered \<^verbatim>\<open>OpenAIToolCall\<close>: \<^verbatim>\<open>id\<close>, \<^verbatim>\<open>function.name\<close>, \<^verbatim>\<open>function.arguments\<close>.\<close>

record ToolCallBufferC =
  bufIdC :: string
  bufNameC :: string
  bufArgumentsC :: string

text \<open>
  The fields the stream processing reads. \<^verbatim>\<open>_completedToolCallIndices\<close>,
  \<^verbatim>\<open>_emittedBeginToolCallsHint\<close> and \<^verbatim>\<open>_currentResponseReasoningDetails\<close> are only reset or
  written in this version, \<^verbatim>\<open>_textToolActive\<close> is never set.
\<close>

record ProviderC =
  toolCallBuffersC :: "(string \<times> ToolCallBufferC) list"
  emittedTextToolCallKeysC :: "nat list set"
  hasEmittedAssistantTextC :: bool
  xmlThinkActiveC :: bool
  xmlThinkDetectionAttemptedC :: bool
  currentThinkingIdC :: "string option"
  reasoningTextBuffer :: string
  randomDrawsC :: nat

definition newProviderC :: ProviderC where
  "newProviderC = \<lparr> toolCallBuffersC = [], emittedTextToolCallKeysC = {},
     hasEmittedAssistantTextC = False, xmlThinkActiveC = False,
     xmlThinkDetectionAttemptedC = False, currentThinkingIdC = None,
     reasoningTextBuffer = [], randomDrawsC = 0 \<rparr>"

subsection \<open>Reasoning\<close>

definition ensureThinkingIdC :: "Host \<Rightarrow> ProviderC \<Rightarrow> string \<times> ProviderC" where
  "ensureThinkingIdC h st =
     (if truthy (currentThinkingIdC st) then (the (currentThinkingIdC st), st)
      else (randomThinkingId h (randomDrawsC st),
            st\<lparr> currentThinkingIdC := Some (randomThinkingId h (randomDrawsC st)),
                randomDrawsC := Suc (randomDrawsC st) \<rparr>))"

text \<open>The metadata \<^verbatim>\<open>{ type: "reasoning.text" }\<close> of a flushed buffer.\<close>

definition coalescedMetadata :: ThinkingMetadata where
  "coalescedMetadata = \<lparr> mdFormat = None, mdType = Some ''reasoning.text'', mdIndex = None,
     mdSignature = None, mdData = None \<rparr>"

definition flushReasoningBuffer :: "Host \<Rightarrow> ProviderC \<Rightarrow> ProviderC \<times> LanguageModelResponsePart list" where
  "flushReasoningBuffer h st =
     (if reasoningTextBuffer st \<noteq> [] then
        (case ensureThinkingIdC h st of
           (thinkingId, st1) \<Rightarrow>
             (st1\<lparr> reasoningTextBuffer := [] \<rparr>,
              [LanguageModelThinkingPart (reasoningTextBuffer st) (Some thinkingId)
                 (Some coalescedMetadata)]))
      else (st, []))"

definition closeActiveThinking :: "ProviderC \<Rightarrow> ProviderC \<times> LanguageModelResponsePart list" where
  "closeActiveThinking st =
     (if truthy (currentThinkingIdC st) then
        (st\<lparr> currentThinkingIdC := None \<rparr>,
         [LanguageModelThinkingPart [] (currentThinkingIdC st) None])
      else (st, []))"

text \<open>
  What the loop over the reasoning details takes from one detail (lines 420 to 439): the
  text, the signature, and whether it is simple text.
\<close>

definition detailText :: "ReasoningDetail \<Rightarrow> string" where
  "detailText detail =
     (if rdType detail = ''reasoning.summary'' then rdSummary detail
      else if rdType detail = ''reasoning.text'' then rdText detail
      else if rdType detail = ''reasoning.encrypted'' then ''[REDACTED]''
      else rdJson detail)"

definition detailSignature :: "ReasoningDetail \<Rightarrow> string option" where
  "detailSignature detail =
     (if rdType detail = ''reasoning.text'' \<and> truthy (rdSignature detail) then rdSignature detail
      else if rdType detail = ''reasoning.encrypted'' \<and> truthy (rdData detail) then rdData detail
      else None)"

definition isSimpleText :: "ReasoningDetail \<Rightarrow> bool" where
  "isSimpleText detail = (rdType detail = ''reasoning.text'')"

text \<open>The rest of the loop body: the coalescing logic (lines 441 to 471).\<close>

definition processReasoningDetailC ::
  "Host \<Rightarrow> ProviderC \<Rightarrow> ReasoningDetail \<Rightarrow> ProviderC \<times> LanguageModelResponsePart list" where
  "processReasoningDetailC h st detail =
     (if isSimpleText detail \<and> detailSignature detail = None then
        (let st1 = st\<lparr> reasoningTextBuffer := reasoningTextBuffer st @ detailText detail \<rparr>
         in if length (reasoningTextBuffer st1) > 4000 then flushReasoningBuffer h st1
            else (st1, []))
      else
        (case (if reasoningTextBuffer st \<noteq> [] then flushReasoningBuffer h st else (st, [])) of
           (st1, out1) \<Rightarrow>
             if detailText detail \<noteq> [] \<or> detailSignature detail \<noteq> None then
               (case ensureThinkingIdC h st1 of
                  (thinkingId, st2) \<Rightarrow>
                    (st2,
                     out1 @
                     [LanguageModelThinkingPart (detailText detail) (Some thinkingId)
                        (Some \<lparr> mdFormat = rdFormat detail, mdType = Some (rdType detail),
                                 mdIndex = rdIndex detail,
                                 mdSignature = detailSignature detail,
                                 mdData = None \<rparr>)]))
             else (st1, out1)))"

fun processReasoningDetailsC ::
  "Host \<Rightarrow> ProviderC \<Rightarrow> ReasoningDetail list \<Rightarrow> ProviderC \<times> LanguageModelResponsePart list" where
  "processReasoningDetailsC h st [] = (st, [])"
| "processReasoningDetailsC h st (detail # details) =
     (case processReasoningDetailC h st detail of
        (st1, out1) \<Rightarrow>
          (case processReasoningDetailsC h st1 details of
             (st2, out2) \<Rightarrow> (st2, out1 @ out2)))"

definition processLegacyThinkingC ::
  "Host \<Rightarrow> ProviderC \<Rightarrow> LegacyThinking \<Rightarrow> ProviderC \<times> LanguageModelResponsePart list" where
  "processLegacyThinkingC h st maybeThinking =
     (let (text, metadata) =
            (case maybeThinking of
               ThinkingString s \<Rightarrow> (s, None)
             | ThinkingObject t m j \<Rightarrow> ((case t of Some s \<Rightarrow> s | None \<Rightarrow> j), m))
      in if text \<noteq> [] then
           (case ensureThinkingIdC h st of
              (thinkingId, st1) \<Rightarrow>
                (st1, [LanguageModelThinkingPart text (Some thinkingId) metadata]))
         else (st, []))"

subsection \<open>Text content and think tags\<close>

text \<open>
  The loop of \<^verbatim>\<open>processXmlThinkBlocks\<close> of this version, on the rest of the data, the parts
  reported so far, \<^verbatim>\<open>emittedAny\<close> and \<^verbatim>\<open>remainingText\<close>.
\<close>

function xmlThinkLoopC ::
  "Host \<Rightarrow> ProviderC \<Rightarrow> string \<Rightarrow> LanguageModelResponsePart list \<Rightarrow> bool \<Rightarrow> string
     \<Rightarrow> ProviderC \<times> LanguageModelResponsePart list \<times> bool \<times> string" where
  "xmlThinkLoopC h st data out emittedAny remainingText =
     (if data = [] then (st, out, emittedAny, remainingText)
      else if \<not> xmlThinkActiveC st then
        (case indexOf data THINK_START of
           None \<Rightarrow>
             (st\<lparr> xmlThinkDetectionAttemptedC := True \<rparr>, out, emittedAny, remainingText @ data)
         | Some startIdx \<Rightarrow>
             xmlThinkLoopC h
               (st\<lparr> xmlThinkActiveC := True,
                    currentThinkingIdC := Some (randomThinkingId h (randomDrawsC st)),
                    randomDrawsC := Suc (randomDrawsC st) \<rparr>)
               (drop (startIdx + length THINK_START) data) out emittedAny
               (remainingText @ take startIdx data))
      else
        (case indexOf data THINK_END of
           None \<Rightarrow>
             (case ensureThinkingIdC h st of
                (thinkingId, st1) \<Rightarrow>
                  (st1, out @ [LanguageModelThinkingPart data (Some thinkingId) None], True,
                   remainingText))
         | Some endIdx \<Rightarrow>
             (case ensureThinkingIdC h st of
                (thinkingId, st1) \<Rightarrow>
                  (case closeActiveThinking (st1\<lparr> xmlThinkActiveC := False \<rparr>) of
                     (st2, closing) \<Rightarrow>
                       xmlThinkLoopC h st2 (drop (endIdx + length THINK_END) data)
                         (out @ [LanguageModelThinkingPart (take endIdx data) (Some thinkingId) None]
                              @ closing)
                         True remainingText))))"
  by pat_completeness auto
termination
  by (relation "measure (\<lambda>(h, st, data, out, emittedAny, remainingText). length data)")
     (auto simp: THINK_START_def THINK_END_def)

declare xmlThinkLoopC.simps [simp del]

definition processXmlThinkBlocksC ::
  "Host \<Rightarrow> ProviderC \<Rightarrow> string \<Rightarrow> ProviderC \<times> LanguageModelResponsePart list \<times> bool \<times> string" where
  "processXmlThinkBlocksC h st input =
     (if xmlThinkDetectionAttemptedC st \<and> \<not> xmlThinkActiveC st then (st, [], False, input)
      else xmlThinkLoopC h st input [] False [])"

text \<open>The branch \<^verbatim>\<open>if (deltaObj?.content)\<close> of this version (lines 497 to 517).\<close>

definition processContentC ::
  "Host \<Rightarrow> ProviderC \<Rightarrow> string \<Rightarrow> ProviderC \<times> LanguageModelResponsePart list" where
  "processContentC h st input =
     (case processXmlThinkBlocksC h st input of
        (st1, out1, emittedAny, remainingText) \<Rightarrow>
          if remainingText \<noteq> [] then
            (let closing = (trim remainingText \<noteq> [] \<and> truthy (currentThinkingIdC st1));
                 out2 = (if closing
                         then [LanguageModelThinkingPart [] (currentThinkingIdC st1) None]
                         else []);
                 st2 = (if closing then st1\<lparr> currentThinkingIdC := None \<rparr> else st1)
             in (st2\<lparr> hasEmittedAssistantTextC := True \<rparr>,
                 out1 @ out2 @ [LanguageModelTextPart remainingText]))
          else (st1, out1))"

subsection \<open>Tool-call buffers\<close>

text \<open>
  The body of the loop over \<^verbatim>\<open>delta.tool_calls\<close> (lines 522 to 539). A buffer is looked up
  under the identifier of the fragment; a new buffer is stored only when the fragment has an
  identifier, otherwise what the fragment adds is lost with the temporary buffer.
\<close>

definition processToolCallC ::
  "ProviderC \<Rightarrow> ToolCallDeltaC \<Rightarrow> ProviderC \<times> LanguageModelResponsePart list" where
  "processToolCallC st tc =
     (let key = (case tcIdC tc of Some i \<Rightarrow> i | None \<Rightarrow> []);
          buf0 = (case map_of (toolCallBuffersC st) key of
                    Some b \<Rightarrow> b
                  | None \<Rightarrow> \<lparr> bufIdC = key, bufNameC = [], bufArgumentsC = [] \<rparr>);
          buf1 = (if truthy (tcNameC tc)
                  then buf0\<lparr> bufNameC := bufNameC buf0 @ the (tcNameC tc) \<rparr> else buf0);
          buf2 = (if truthy (tcArgumentsC tc)
                  then buf1\<lparr> bufArgumentsC := bufArgumentsC buf1 @ the (tcArgumentsC tc) \<rparr>
                  else buf1);
          stored = (map_of (toolCallBuffersC st) key \<noteq> None \<or> truthy (tcIdC tc))
      in ((if stored then st\<lparr> toolCallBuffersC := AList.update key buf2 (toolCallBuffersC st) \<rparr>
           else st),
          (case tcThoughtC tc of
             Some thought \<Rightarrow>
               if truthyValue thought
               then [LanguageModelToolCallPart key key (JObject [(codeUnits ''thought'', thought)])]
               else []
           | None \<Rightarrow> [])))"

fun processToolCallsC ::
  "ProviderC \<Rightarrow> ToolCallDeltaC list \<Rightarrow> ProviderC \<times> LanguageModelResponsePart list" where
  "processToolCallsC st [] = (st, [])"
| "processToolCallsC st (tc # tcs) =
     (case processToolCallC st tc of
        (st1, out1) \<Rightarrow>
          (case processToolCallsC st1 tcs of
             (st2, out2) \<Rightarrow> (st2, out1 @ out2)))"

text \<open>\<^verbatim>\<open>tryEmitBufferedToolCall(key, progress, isLast)\<close> of this version (lines 654 to 687).\<close>

definition tryEmitBufferedToolCallC ::
  "Host \<Rightarrow> ProviderC \<Rightarrow> string \<Rightarrow> bool \<Rightarrow> ProviderC \<times> LanguageModelResponsePart list" where
  "tryEmitBufferedToolCallC h st key isLast =
     (case map_of (toolCallBuffersC st) key of
        None \<Rightarrow> (st, [])
      | Some buf \<Rightarrow>
          if bufNameC buf = [] then (st, [])
          else
            (case parseArguments h (bufArgumentsC buf) of
               None \<Rightarrow>
                 if \<not> isLast then (st, [])
                 else
                   (st\<lparr> toolCallBuffersC := AList.delete key (toolCallBuffersC st) \<rparr>,
                    [LanguageModelToolCallPart (bufIdC buf) (bufNameC buf) (JObject [])])
             | Some parameters \<Rightarrow>
                 (let toolKey = codeUnits (bufNameC buf) @ codeUnits '':'' @ stringify parameters in
                  if toolKey \<in> emittedTextToolCallKeysC st then
                    (st\<lparr> toolCallBuffersC := AList.delete key (toolCallBuffersC st) \<rparr>, [])
                  else
                    (st\<lparr> emittedTextToolCallKeysC := insert toolKey (emittedTextToolCallKeysC st),
                         toolCallBuffersC := AList.delete key (toolCallBuffersC st) \<rparr>,
                     [LanguageModelToolCallPart (bufIdC buf) (bufNameC buf) parameters]))))"

text \<open>
  \<^verbatim>\<open>flushToolCallBuffers\<close> of this version: \<^verbatim>\<open>tryEmitBufferedToolCall(key, progress, true)\<close> for
  every key of the map, in order.
\<close>

fun flushKeysC ::
  "Host \<Rightarrow> string list \<Rightarrow> ProviderC \<Rightarrow> ProviderC \<times> LanguageModelResponsePart list" where
  "flushKeysC h [] st = (st, [])"
| "flushKeysC h (key # keys) st =
     (case tryEmitBufferedToolCallC h st key True of
        (st1, out1) \<Rightarrow>
          (case flushKeysC h keys st1 of (st2, out2) \<Rightarrow> (st2, out1 @ out2)))"

definition flushToolCallBuffersC ::
  "Host \<Rightarrow> ProviderC \<Rightarrow> ProviderC \<times> LanguageModelResponsePart list" where
  "flushToolCallBuffersC h st = flushKeysC h (map fst (toolCallBuffersC st)) st"

subsection \<open>A delta and a stream\<close>

definition processDeltaC ::
  "Host \<Rightarrow> ProviderC \<Rightarrow> ChoiceC \<Rightarrow> ProviderC \<times> LanguageModelResponsePart list" where
  "processDeltaC h st choice =
     (case (if reasoningDetailsC choice \<noteq> []
            then processReasoningDetailsC h st (sortDetails (reasoningDetailsC choice))
            else (case legacyThinkingC choice of
                    None \<Rightarrow> (st, [])
                  | Some maybeThinking \<Rightarrow> processLegacyThinkingC h st maybeThinking)) of
        (st1, out1) \<Rightarrow>
          (case (if truthy (deltaContentC choice)
                 then processContentC h st1 (the (deltaContentC choice))
                 else (st1, [])) of
             (st2, out2) \<Rightarrow>
               (case (case toolCallsC choice of
                        None \<Rightarrow> (st2, [])
                      | Some tcs \<Rightarrow> processToolCallsC st2 tcs) of
                  (st3, out3) \<Rightarrow>
                    if finishReasonC choice = Some ''tool_calls'' \<or> finishReasonC choice = Some ''stop''
                    then (case flushToolCallBuffersC h st3 of
                            (st4, out4) \<Rightarrow> (st4, out1 @ out2 @ out3 @ out4))
                    else (st3, out1 @ out2 @ out3))))"

text \<open>
  The loop over the lines in \<^verbatim>\<open>processStreamingResponse\<close> of this version. At \<^verbatim>\<open>[DONE]\<close> it
  flushes the tool-call buffers and the reasoning buffer, closes the active thinking span and
  returns: the lines after it are not read.
\<close>

fun processLinesC ::
  "Host \<Rightarrow> ProviderC \<Rightarrow> SseLineC list \<Rightarrow> ProviderC \<times> LanguageModelResponsePart list" where
  "processLinesC h st [] = (st, [])"
| "processLinesC h st (DoneLineC # ls) =
     (case flushToolCallBuffersC h st of
        (st1, out1) \<Rightarrow>
          (case flushReasoningBuffer h st1 of
             (st2, out2) \<Rightarrow>
               (case closeActiveThinking st2 of
                  (st3, out3) \<Rightarrow> (st3, out1 @ out2 @ out3))))"
| "processLinesC h st (DataLineC None # ls) = processLinesC h st ls"
| "processLinesC h st (DataLineC (Some choice) # ls) =
     (case processDeltaC h st choice of
        (st1, out1) \<Rightarrow>
          (case processLinesC h st1 ls of (st2, out2) \<Rightarrow> (st2, out1 @ out2)))"

text \<open>
  The parts a whole response stream reports: the loop, then the \<^verbatim>\<open>finally\<close> block, which
  closes the active thinking span and discards the buffers.
\<close>

definition processStreamingResponseC :: "Host \<Rightarrow> SseLineC list \<Rightarrow> LanguageModelResponsePart list" where
  "processStreamingResponseC h ls =
     (case processLinesC h newProviderC ls of
        (st, out) \<Rightarrow> out @ snd (closeActiveThinking st))"

subsection \<open>Deltas of the scenarios\<close>

definition emptyChoiceC :: ChoiceC where
  "emptyChoiceC = \<lparr> legacyThinkingC = None, reasoningDetailsC = [], deltaContentC = None,
     toolCallsC = None, finishReasonC = None \<rparr>"

definition contentDeltaC :: "string \<Rightarrow> SseLineC" where
  "contentDeltaC s = DataLineC (Some (emptyChoiceC\<lparr> deltaContentC := Some s \<rparr>))"

text \<open>An unsigned plain reasoning segment, and the delta that carries just it.\<close>

definition plainReasoning :: "string \<Rightarrow> ReasoningDetail" where
  "plainReasoning s = \<lparr> rdType = ''reasoning.text'', rdIndex = None, rdFormat = None,
     rdText = s, rdSummary = [], rdSignature = None, rdData = None, rdJson = [] \<rparr>"

definition reasoningDeltaC :: "ReasoningDetail \<Rightarrow> SseLineC" where
  "reasoningDeltaC detail = DataLineC (Some (emptyChoiceC\<lparr> reasoningDetailsC := [detail] \<rparr>))"

definition toolCallDeltaC :: "string option \<Rightarrow> string option \<Rightarrow> string \<Rightarrow> SseLineC" where
  "toolCallDeltaC i name arguments =
     DataLineC (Some (emptyChoiceC\<lparr> toolCallsC :=
       Some [\<lparr> tcIdC = i, tcNameC = name, tcArgumentsC = Some arguments, tcThoughtC = None \<rparr>] \<rparr>))"

definition finishDeltaC :: "string \<Rightarrow> SseLineC" where
  "finishDeltaC reason = DataLineC (Some (emptyChoiceC\<lparr> finishReasonC := Some reason \<rparr>))"

section \<open>Facts about the string primitives\<close>

lemma indexOf_None_iff: "indexOf s t = None \<longleftrightarrow> \<not> sublist t s"
  by (induction s) (auto simp: sublist_Cons_right)

lemma indexOf_Some_prefix: "indexOf s t = Some i \<Longrightarrow> prefix t (drop i s)"
proof (induction s arbitrary: i)
  case Nil
  then show ?case by (simp split: if_splits)
next
  case (Cons x xs)
  then show ?case by (cases "prefix t (x # xs)") auto
qed

lemma indexOf_Some_first:
  "indexOf s t = Some i \<Longrightarrow> j < i \<Longrightarrow> \<not> prefix t (drop j s)"
proof (induction s arbitrary: i j)
  case Nil
  then show ?case by (simp split: if_splits)
next
  case (Cons x xs)
  show ?case
  proof (cases "prefix t (x # xs)")
    case True
    with Cons.prems show ?thesis by simp
  next
    case False
    with Cons.prems obtain i' where i': "indexOf xs t = Some i'" "i = Suc i'" by auto
    show ?thesis
    proof (cases j)
      case 0
      with False show ?thesis by simp
    next
      case (Suc j')
      with Cons.prems i' have "j' < i'" by simp
      with Cons.IH i' have "\<not> prefix t (drop j' xs)" by blast
      with Suc show ?thesis by simp
    qed
  qed
qed

lemma indexOf_SomeI:
  assumes "prefix t (drop i s)" "i \<le> length s" "\<And>j. j < i \<Longrightarrow> \<not> prefix t (drop j s)"
  shows "indexOf s t = Some i"
  using assms
proof (induction s arbitrary: i)
  case Nil
  then show ?case by simp
next
  case (Cons x xs)
  show ?case
  proof (cases i)
    case 0
    with Cons.prems show ?thesis by simp
  next
    case (Suc i')
    with Cons.prems(3) [of 0] have np: "\<not> prefix t (x # xs)" by simp
    have "indexOf xs t = Some i'"
    proof (rule Cons.IH)
      show "prefix t (drop i' xs)" using Cons.prems(1) Suc by simp
      show "i' \<le> length xs" using Cons.prems(2) Suc by simp
      show "\<not> prefix t (drop j xs)" if "j < i'" for j
        using Cons.prems(3) [of "Suc j"] that Suc by simp
    qed
    with np Suc show ?thesis by simp
  qed
qed

lemma findPartialMatchFrom_le: "findPartialMatchFrom text token n \<le> n"
  by (induction n) auto

lemma findPartialMatch_le_text: "findPartialMatch text token \<le> length text"
  unfolding findPartialMatch_def
  using findPartialMatchFrom_le [of "text" token "min (length text) (length token - 1)"] by simp

lemma findPartialMatch_le_token: "findPartialMatch text token \<le> length token - 1"
  unfolding findPartialMatch_def
  using findPartialMatchFrom_le [of "text" token "min (length text) (length token - 1)"] by simp

lemma findPartialMatchFrom_match:
  "drop (length text - findPartialMatchFrom text token n) text
     = take (findPartialMatchFrom text token n) token"
  by (induction n) auto

lemma findPartialMatch_match:
  "drop (length text - findPartialMatch text token) text
     = take (findPartialMatch text token) token"
  unfolding findPartialMatch_def by (rule findPartialMatchFrom_match)

lemma findPartialMatchFrom_greatest:
  "findPartialMatchFrom text token n < j \<Longrightarrow> j \<le> n
     \<Longrightarrow> drop (length text - j) text \<noteq> take j token"
proof (induction n)
  case 0
  then show ?case by simp
next
  case (Suc n)
  then show ?case
    by (cases "j = Suc n") (auto split: if_splits)
qed

lemma findPartialMatch_greatest:
  assumes "findPartialMatch text token < j" "j \<le> length text" "j \<le> length token - 1"
  shows "drop (length text - j) text \<noteq> take j token"
  using assms
    findPartialMatchFrom_greatest [where n = "min (length text) (length token - 1)" and j = j]
  by (simp add: findPartialMatch_def)

lemma pending_positions:
  assumes "indexOf s t = None" "j < length s - findPartialMatch s t"
  shows "\<not> prefix t (drop j s)" and "\<not> prefix (drop j s) t"
proof -
  show np: "\<not> prefix t (drop j s)"
  proof
    assume "prefix t (drop j s)"
    then obtain zs where "drop j s = t @ zs" by (auto simp: prefix_def)
    then have "s = take j s @ t @ zs" by (metis append_take_drop_id)
    then have "sublist t s" by (metis sublist_appendI)
    with assms(1) show False by (simp add: indexOf_None_iff)
  qed
  show "\<not> prefix (drop j s) t"
  proof
    assume pre: "prefix (drop j s) t"
    let ?m = "length s - j"
    have jl: "j < length s" using assms(2) by simp
    have len: "length (drop j s) = ?m" by simp
    have mle: "?m \<le> length t" using pre prefix_length_le by fastforce
    have eq: "drop j s = take ?m t" using pre len by (metis append_eq_conv_conj prefix_def)
    have "?m \<noteq> length t"
    proof
      assume "?m = length t"
      with eq have "drop j s = t" by simp
      with np show False by simp
    qed
    with mle have m1: "?m \<le> length t - 1" by simp
    have "findPartialMatch s t < ?m" using assms(2) by simp
    moreover have "?m \<le> length s" by simp
    ultimately have "drop (length s - ?m) s \<noteq> take ?m t"
      using m1 by (rule findPartialMatch_greatest)
    moreover have "length s - ?m = j" using jl by simp
    ultimately show False using eq by simp
  qed
qed

lemma indexOf_append_safe:
  assumes "\<And>j. j < length e \<Longrightarrow> \<not> prefix t (drop j (e @ y))"
  shows "indexOf (e @ y) t = map_option (\<lambda>i. length e + i) (indexOf y t)"
  using assms
proof (induction e)
  case Nil
  then show ?case by (simp add: option.map_ident)
next
  case (Cons x e)
  have "\<not> prefix t (x # e @ y)" using Cons.prems [of 0] by simp
  moreover have "indexOf (e @ y) t = map_option (\<lambda>i. length e + i) (indexOf y t)"
  proof (rule Cons.IH)
    fix j assume "j < length e"
    then show "\<not> prefix t (drop j (e @ y))" using Cons.prems [of "Suc j"] by simp
  qed
  ultimately show ?case by (simp add: option.map_comp comp_def)
qed

lemma findPartialMatchFrom_append_safe:
  assumes "\<And>j. j < length e \<Longrightarrow> \<not> prefix (drop j (e @ y)) t"
  shows "n \<le> length e + length y \<Longrightarrow>
     findPartialMatchFrom (e @ y) t n = findPartialMatchFrom y t (min n (length y))"
proof (induction n)
  case 0
  then show ?case by simp
next
  case (Suc n)
  show ?case
  proof (cases "Suc n \<le> length y")
    case True
    then have "drop (length (e @ y) - Suc n) (e @ y) = drop (length y - Suc n) y" by simp
    with True Suc show ?thesis by (simp add: min_def)
  next
    case False
    let ?j = "length (e @ y) - Suc n"
    have j: "?j < length e" using False Suc.prems by simp
    have "drop ?j (e @ y) \<noteq> take (Suc n) t"
    proof
      assume "drop ?j (e @ y) = take (Suc n) t"
      then have "prefix (drop ?j (e @ y)) t" by (simp add: take_is_prefix)
      with assms [OF j] show False by simp
    qed
    moreover have "min (Suc n) (length y) = min n (length y)" using False by simp
    ultimately show ?thesis using Suc by simp
  qed
qed

lemma findPartialMatch_append_safe:
  assumes "\<And>j. j < length e \<Longrightarrow> \<not> prefix (drop j (e @ y)) t"
  shows "findPartialMatch (e @ y) t = findPartialMatch y t"
proof -
  have "min (min (length e + length y) (length t - 1)) (length y) = min (length y) (length t - 1)"
    by simp
  then show ?thesis
    using findPartialMatchFrom_append_safe [OF assms, of "min (length e + length y) (length t - 1)"]
    by (simp add: findPartialMatch_def)
qed

lemma indexOf_append_found:
  assumes "indexOf s t = Some i"
  shows "indexOf (s @ b) t = Some i"
proof (rule indexOf_SomeI)
  have il: "i + length t \<le> length s" using assms by (rule indexOf_le)
  have "prefix t (drop i s)" using assms by (rule indexOf_Some_prefix)
  then show "prefix t (drop i (s @ b))" using il by (simp add: prefix_prefix)
  show "i \<le> length (s @ b)" using il by simp
  fix j assume ji: "j < i"
  show "\<not> prefix t (drop j (s @ b))"
  proof
    assume "prefix t (drop j (s @ b))"
    then have p: "prefix t (drop j s @ b)" using ji il by simp
    have "length t \<le> length (drop j s)" using ji il by simp
    with p have "prefix t (drop j s)"
      by (metis prefix_length_prefix prefix_order.dual_order.refl prefixI)
    with indexOf_Some_first [OF assms ji] show False by simp
  qed
qed

lemma not_comparable_append:
  assumes "\<not> prefix t u" "\<not> prefix u t"
  shows "\<not> prefix t (u @ w)" and "\<not> prefix (u @ w) t"
proof -
  show "\<not> prefix (u @ w) t" using assms(2) by (meson append_prefixD)
  show "\<not> prefix t (u @ w)"
  proof
    assume "prefix t (u @ w)"
    moreover have "prefix u (u @ w)" by simp
    ultimately have "prefix t u \<or> prefix u t" by (rule prefix_same_cases)
    with assms show False by simp
  qed
qed

lemma clear_pending:
  assumes "indexOf s t = None"
  shows "clear (take (length s - findPartialMatch s t) s)
               (drop (length s - findPartialMatch s t) s @ b) t"
  unfolding clear_def
proof (intro allI impI)
  let ?n = "length s - findPartialMatch s t"
  fix j assume "j < length (take ?n s)"
  then have j: "j < ?n" by simp
  have e: "take ?n s @ drop ?n s @ b = s @ b" by simp
  have "drop j (s @ b) = drop j s @ b" using j by simp
  then have "drop j (take ?n s @ drop ?n s @ b) = drop j s @ b"
    by (simp only: e)
  then show "\<not> prefix t (drop j (take ?n s @ drop ?n s @ b))
      \<and> \<not> prefix (drop j (take ?n s @ drop ?n s @ b)) t"
    using not_comparable_append [OF pending_positions [OF assms j]] by simp
qed

lemma clear_indexOf:
  "clear e y t \<Longrightarrow> indexOf (e @ y) t = map_option (\<lambda>i. length e + i) (indexOf y t)"
  by (rule indexOf_append_safe) (simp add: clear_def)

lemma clear_findPartialMatch:
  "clear e y t \<Longrightarrow> findPartialMatch (e @ y) t = findPartialMatch y t"
  by (rule findPartialMatch_append_safe) (simp add: clear_def)


lemma sublist_drop_prefix:
  "sublist t s \<Longrightarrow> \<exists>j. j + length t \<le> length s \<and> prefix t (drop j s)"
proof -
  assume "sublist t s"
  then obtain ps ss where "s = ps @ t @ ss" by (auto simp: sublist_def)
  then have "length ps + length t \<le> length s \<and> prefix t (drop (length ps) s)" by simp
  then show ?thesis by blast
qed

lemma no_sentinel_before_first:
  assumes "indexOf s t = Some i" "t \<noteq> []"
  shows "\<not> sublist t (take i s)"
proof
  assume "sublist t (take i s)"
  then obtain j where j: "j + length t \<le> length (take i s)" "prefix t (drop j (take i s))"
    using sublist_drop_prefix by blast
  have ji: "j < i" using j(1) assms(2) by (cases t) auto
  have "prefix (drop j (take i s)) (drop j s)"
    by (metis append_take_drop_id drop_append prefixI)
  with j(2) have "prefix t (drop j s)" by (rule prefix_order.trans)
  with indexOf_Some_first [OF assms(1) ji] show False by simp
qed

lemma no_sentinel_take:
  assumes "indexOf s t = None"
  shows "\<not> sublist t (take n s)"
proof
  assume "sublist t (take n s)"
  moreover have "sublist (take n s) s" by (metis append_take_drop_id sublist_append_rightI)
  ultimately have "sublist t s" by (rule sublist_order.order_trans)
  with assms show False by (simp add: indexOf_None_iff)
qed

section \<open>Facts about the sentinel-token parser\<close>

lemma trace_append: "trace (xs @ ys) = trace xs @ trace ys"
  by (induction xs rule: trace.induct) auto

lemma parser_induct [case_names pass]:
  assumes "\<And>p. (\<And>p' out. buffer p \<noteq> [] \<Longrightarrow> step p = (p', out, True) \<Longrightarrow> P p') \<Longrightarrow> P p"
  shows "P p"
proof (induction "length (buffer p)" arbitrary: p rule: less_induct)
  case less
  show ?case
  proof (rule assms)
    fix p' out
    assume "buffer p \<noteq> []" "step p = (p', out, True)"
    then have "length (buffer p') < length (buffer p)" using step_shrinks by blast
    then show "P p'" by (rule less)
  qed
qed

lemma processLoop_empty: "buffer p = [] \<Longrightarrow> processLoop p r = (p, r)"
  by (simp add: processLoop.simps)

lemma processLoop_continue:
  "buffer p \<noteq> [] \<Longrightarrow> step p = (p', out, True) \<Longrightarrow> processLoop p r = processLoop p' (r @ out)"
  by (subst processLoop.simps) simp

lemma processLoop_stop:
  "buffer p \<noteq> [] \<Longrightarrow> step p = (p', out, False) \<Longrightarrow> processLoop p r = (p', r @ out)"
  by (subst processLoop.simps) simp

lemma processLoop_results:
  "processLoop p r = (fst (processLoop p []), r @ snd (processLoop p []))"
proof (induction p arbitrary: r rule: parser_induct)
  case (pass p)
  show ?case
  proof (cases "buffer p = []")
    case True
    then show ?thesis by (simp add: processLoop_empty)
  next
    case False
    obtain p' out c where st: "step p = (p', out, c)" by (cases "step p") auto
    show ?thesis
    proof (cases c)
      case True
      with st have st': "step p = (p', out, True)" by simp
      show ?thesis
        using processLoop_continue [OF False st', of r] processLoop_continue [OF False st', of "[]"]
          pass [OF False st', of "r @ out"] pass [OF False st', of out]
        by simp
    next
      case False2: False
      with st have st': "step p = (p', out, False)" by simp
      show ?thesis using processLoop_stop [OF False st'] by simp
    qed
  qed
qed


lemma scanning_pending:
  assumes "\<not> inToolSection p" "indexOf (buffer p) SECTION_BEGIN = None"
  defines "k \<equiv> findPartialMatch (buffer p) SECTION_BEGIN"
  shows "processLoop p [] =
     (p\<lparr> buffer := drop (length (buffer p) - k) (buffer p) \<rparr>,
      (if k < length (buffer p) then [Thinking (take (length (buffer p) - k) (buffer p))] else []))"
proof (cases "buffer p = []")
  case True
  then have "k = 0" using findPartialMatch_le_text [of "buffer p" SECTION_BEGIN] by (simp add: k_def)
  moreover have "p\<lparr> buffer := [] \<rparr> = p" using True by (cases p) simp
  ultimately show ?thesis using True by (simp add: processLoop_empty)
next
  case False
  have kle: "k \<le> length (buffer p)" unfolding k_def by (rule findPartialMatch_le_text)
  show ?thesis
  proof (cases "k = 0")
    case True
    then have st: "step p = (p\<lparr> buffer := [] \<rparr>, [Thinking (buffer p)], True)"
      using assms(1,2) by (simp add: step_def k_def)
    show ?thesis
      using processLoop_continue [OF False st, of "[]"] True False
      by (simp add: processLoop_empty)
  next
    case kpos: False
    show ?thesis
    proof (cases "k < length (buffer p)")
      case True
      then have st: "step p = (p\<lparr> buffer := drop (length (buffer p) - k) (buffer p) \<rparr>,
          [Thinking (take (length (buffer p) - k) (buffer p))], False)"
        using assms(1,2) kpos by (simp add: step_def k_def Let_def)
      show ?thesis using processLoop_stop [OF False st, of "[]"] True by simp
    next
      case False2: False
      with kle have keq: "k = length (buffer p)" by simp
      then have st: "step p = (p, [], False)"
        using assms(1,2) kpos by (simp add: step_def k_def Let_def)
      have "p\<lparr> buffer := buffer p \<rparr> = p" by simp
      then show ?thesis using processLoop_stop [OF False st, of "[]"] keq by simp
    qed
  qed
qed

lemma processChunk_scanning:
  assumes "\<not> inToolSection p" "\<not> sublist SECTION_BEGIN (buffer p @ chunk)"
  shows "\<not> inToolSection (fst (processChunk p chunk))"
    and "concat (map content (snd (processChunk p chunk))) @ buffer (fst (processChunk p chunk))
           = buffer p @ chunk"
    and "\<forall>r \<in> set (snd (processChunk p chunk)). \<exists>s. r = Thinking s"
proof -
  let ?q = "p\<lparr> buffer := buffer p @ chunk \<rparr>"
  have q: "\<not> inToolSection ?q" "indexOf (buffer ?q) SECTION_BEGIN = None"
    using assms by (simp_all add: indexOf_None_iff)
  note eq = scanning_pending [OF q]
  show "\<not> inToolSection (fst (processChunk p chunk))"
    using assms(1) by (simp add: processChunk_def eq)
  show "concat (map content (snd (processChunk p chunk))) @ buffer (fst (processChunk p chunk))
           = buffer p @ chunk"
    using findPartialMatch_le_text [of "buffer p @ chunk" SECTION_BEGIN]
    by (simp add: processChunk_def eq del: take_append drop_append)
  show "\<forall>r \<in> set (snd (processChunk p chunk)). \<exists>s. r = Thinking s"
    by (simp add: processChunk_def eq)
qed

lemma feed_scanning:
  assumes "\<not> inToolSection p" "\<not> sublist SECTION_BEGIN (buffer p @ concat chunks)"
  shows "\<not> inToolSection (fst (feed p chunks))
       \<and> concat (map content (snd (feed p chunks))) @ buffer (fst (feed p chunks))
           = buffer p @ concat chunks
       \<and> (\<forall>r \<in> set (snd (feed p chunks)). \<exists>s. r = Thinking s)"
  using assms
proof (induction chunks arbitrary: p)
  case Nil
  then show ?case by simp
next
  case (Cons c cs)
  obtain p' rs where pc: "processChunk p c = (p', rs)" by (cases "processChunk p c") auto
  have ns: "\<not> sublist SECTION_BEGIN (buffer p @ c)"
  proof
    assume "sublist SECTION_BEGIN (buffer p @ c)"
    then have "sublist SECTION_BEGIN ((buffer p @ c) @ concat cs)"
      by (meson sublist_order.order_trans sublist_append_rightI)
    with Cons.prems(2) show False by simp
  qed
  note step1 = processChunk_scanning [OF Cons.prems(1) ns, unfolded pc fst_conv snd_conv]
  have ns': "\<not> sublist SECTION_BEGIN (buffer p' @ concat cs)"
  proof
    assume "sublist SECTION_BEGIN (buffer p' @ concat cs)"
    then have "sublist SECTION_BEGIN (concat (map content rs) @ buffer p' @ concat cs)"
      by (meson sublist_order.order_trans sublist_append_leftI)
    with step1(2) Cons.prems(2) show False by (metis append.assoc concat.simps(2))
  qed
  note ih = Cons.IH [OF step1(1) ns']
  obtain p'' rest where fd: "feed p' cs = (p'', rest)" by (cases "feed p' cs") auto
  show ?case
    using ih step1 by (auto simp: pc fd) 
qed


lemma step_scanning_found:
  assumes "\<not> inToolSection p" "indexOf (buffer p) SECTION_BEGIN = Some i"
  shows "step p = (p\<lparr> buffer := drop (i + length SECTION_BEGIN) (buffer p), inToolSection := True \<rparr>,
                   (if i > 0 then [Thinking (take i (buffer p))] else []), True)"
  using assms by (simp add: step_def)

lemma scanning_clear:
  assumes "\<not> inToolSection p" "clear e y SECTION_BEGIN"
  shows "fst (processLoop (p\<lparr> buffer := e @ y \<rparr>) []) = fst (processLoop (p\<lparr> buffer := y \<rparr>) [])
       \<and> trace (snd (processLoop (p\<lparr> buffer := e @ y \<rparr>) []))
           = map ThinkingChar e @ trace (snd (processLoop (p\<lparr> buffer := y \<rparr>) []))"
proof (cases "e = []")
  case True
  then show ?thesis by simp
next
  case False
  let ?T = SECTION_BEGIN
  let ?q = "p\<lparr> buffer := e @ y \<rparr>" and ?qy = "p\<lparr> buffer := y \<rparr>"
  have q: "\<not> inToolSection ?q" "\<not> inToolSection ?qy" using assms(1) by simp_all
  have io: "indexOf (e @ y) ?T = map_option (\<lambda>i. length e + i) (indexOf y ?T)"
    using assms(2) by (rule clear_indexOf)
  have fp: "findPartialMatch (e @ y) ?T = findPartialMatch y ?T"
    using assms(2) by (rule clear_findPartialMatch)
  show ?thesis
  proof (cases "indexOf y ?T")
    case None
    let ?k = "findPartialMatch y ?T"
    have kle: "?k \<le> length y" by (rule findPartialMatch_le_text)
    have n: "indexOf (buffer ?q) ?T = None" "indexOf (buffer ?qy) ?T = None"
      using None io by simp_all
    have l: "?k < length e + length y" using kle False by (cases e) auto
    have a: "processLoop ?q [] =
        (p\<lparr> buffer := drop (length y - ?k) y \<rparr>, [Thinking (e @ take (length y - ?k) y)])"
      using scanning_pending [OF q(1) n(1)] fp kle l by simp
    have b: "processLoop ?qy [] =
        (p\<lparr> buffer := drop (length y - ?k) y \<rparr>,
         (if ?k < length y then [Thinking (take (length y - ?k) y)] else []))"
      using scanning_pending [OF q(2) n(2)] by simp
    show ?thesis unfolding a b using kle by simp
  next
    case (Some i)
    then have io': "indexOf (buffer ?q) ?T = Some (length e + i)" "indexOf (buffer ?qy) ?T = Some i"
      using io by simp_all
    have yl: "i + length ?T \<le> length y" using Some by (rule indexOf_le)
    then have yne: "buffer ?qy \<noteq> []" by (auto simp: SECTION_BEGIN_def)
    have qne: "buffer ?q \<noteq> []" using False by simp
    let ?r = "p\<lparr> buffer := drop (i + length ?T) y, inToolSection := True \<rparr>"
    have s1: "step ?q = (?r, [Thinking (e @ take i y)], True)"
      using step_scanning_found [OF q(1) io'(1)] False by (simp add: add.assoc)
    have s0: "step ?qy = (?r, (if i > 0 then [Thinking (take i y)] else []), True)"
      using step_scanning_found [OF q(2) io'(2)] by simp
    have a: "processLoop ?q [] = (fst (processLoop ?r []), [Thinking (e @ take i y)] @ snd (processLoop ?r []))"
      using processLoop_continue [OF qne s1, of "[]"] processLoop_results [of ?r "[Thinking (e @ take i y)]"]
      by simp
    have b: "processLoop ?qy [] = (fst (processLoop ?r []),
        (if i > 0 then [Thinking (take i y)] else []) @ snd (processLoop ?r []))"
      using processLoop_continue [OF yne s0, of "[]"]
        processLoop_results [of ?r "(if i > 0 then [Thinking (take i y)] else [])"]
      by simp
    show ?thesis unfolding a b by (simp add: trace_append)
  qed
qed


lemma step_name_found:
  assumes "inToolSection p" "inToolCall p" "\<not> inArguments p"
    and "indexOf (buffer p) ARG_BEGIN = Some i"
  shows "step p = (p\<lparr> currentToolName := currentToolName p @ take i (buffer p),
                      buffer := drop (i + length ARG_BEGIN) (buffer p),
                      inArguments := True \<rparr>, [], True)"
  using assms by (simp add: step_def)

lemma step_name_pending:
  assumes "inToolSection p" "inToolCall p" "\<not> inArguments p"
    and "indexOf (buffer p) ARG_BEGIN = None"
  shows "step p =
     (p\<lparr> currentToolName := currentToolName p
            @ take (length (buffer p) - findPartialMatch (buffer p) ARG_BEGIN) (buffer p),
         buffer := drop (length (buffer p) - findPartialMatch (buffer p) ARG_BEGIN) (buffer p) \<rparr>,
      [], False)"
  using assms by (simp add: step_def Let_def)

lemma step_args_found:
  assumes "inToolSection p" "inToolCall p" "inArguments p"
    and "indexOf (buffer p) CALL_END = Some i"
  shows "step p = (p\<lparr> currentToolArgs := currentToolArgs p @ take i (buffer p),
                      buffer := drop (i + length CALL_END) (buffer p),
                      inArguments := False, inToolCall := False \<rparr>,
                   [Tool (trim (currentToolName p)) (trim (currentToolArgs p @ take i (buffer p)))],
                   True)"
  using assms by (simp add: step_def Let_def)

lemma step_args_pending:
  assumes "inToolSection p" "inToolCall p" "inArguments p"
    and "indexOf (buffer p) CALL_END = None"
  shows "step p =
     (p\<lparr> currentToolArgs := currentToolArgs p
            @ take (length (buffer p) - findPartialMatch (buffer p) CALL_END) (buffer p),
         buffer := drop (length (buffer p) - findPartialMatch (buffer p) CALL_END) (buffer p) \<rparr>,
      [], False)"
  using assms by (simp add: step_def Let_def)

lemma processLoop_same_step:
  assumes "step p = step q" "buffer p \<noteq> []" "buffer q \<noteq> []"
  shows "processLoop p r = processLoop q r"
  using assms by (simp add: processLoop.simps [of p] processLoop.simps [of q])

lemma name_clear:
  assumes "inToolSection p" "inToolCall p" "\<not> inArguments p" "clear e y ARG_BEGIN"
  shows "processLoop (p\<lparr> buffer := e @ y \<rparr>) r
       = processLoop (p\<lparr> currentToolName := currentToolName p @ e, buffer := y \<rparr>) r"
proof (cases "e = []")
  case True
  then show ?thesis by simp
next
  case False
  let ?T = ARG_BEGIN
  let ?q = "p\<lparr> buffer := e @ y \<rparr>"
  let ?qy = "p\<lparr> currentToolName := currentToolName p @ e, buffer := y \<rparr>"
  have q: "inToolSection ?q" "inToolCall ?q" "\<not> inArguments ?q"
    and qy: "inToolSection ?qy" "inToolCall ?qy" "\<not> inArguments ?qy"
    using assms(1-3) by simp_all
  have io: "indexOf (e @ y) ?T = map_option (\<lambda>i. length e + i) (indexOf y ?T)"
    using assms(4) by (rule clear_indexOf)
  have fp: "findPartialMatch (e @ y) ?T = findPartialMatch y ?T"
    using assms(4) by (rule clear_findPartialMatch)
  have kle: "findPartialMatch y ?T \<le> length y" by (rule findPartialMatch_le_text)
  have qne: "buffer ?q \<noteq> []" using False by simp
  show ?thesis
  proof (cases "indexOf y ?T")
    case None
    then have n: "indexOf (buffer ?q) ?T = None" "indexOf (buffer ?qy) ?T = None"
      using io by simp_all
    have s1: "step ?q = (p\<lparr> currentToolName := currentToolName p @ e
                               @ take (length y - findPartialMatch y ?T) y,
                            buffer := drop (length y - findPartialMatch y ?T) y \<rparr>, [], False)"
      using step_name_pending [OF q n(1)] fp kle by simp
    have s2: "step ?qy = (p\<lparr> currentToolName := currentToolName p @ e
                               @ take (length y - findPartialMatch y ?T) y,
                            buffer := drop (length y - findPartialMatch y ?T) y \<rparr>, [], False)"
      using step_name_pending [OF qy n(2)] by simp
    show ?thesis
    proof (cases "y = []")
      case True
      have "findPartialMatch y ?T = 0" using kle True by simp
      then show ?thesis
        using processLoop_stop [OF qne s1, of r] True by (simp add: processLoop_empty)
    next
      case yne: False
      then have "buffer ?qy \<noteq> []" by simp
      moreover have "step ?q = step ?qy" using s1 s2 by simp
      ultimately show ?thesis using qne processLoop_same_step by blast
    qed
  next
    case (Some i)
    then have f: "indexOf (buffer ?q) ?T = Some (length e + i)" "indexOf (buffer ?qy) ?T = Some i"
      using io by simp_all
    have "i + length ?T \<le> length y" using Some by (rule indexOf_le)
    then have yne: "buffer ?qy \<noteq> []" by (auto simp: ARG_BEGIN_def)
    have "step ?q = step ?qy"
      using step_name_found [OF q f(1)] step_name_found [OF qy f(2)] by (simp add: add.assoc)
    then show ?thesis using qne yne processLoop_same_step by blast
  qed
qed

lemma args_clear:
  assumes "inToolSection p" "inToolCall p" "inArguments p" "clear e y CALL_END"
  shows "processLoop (p\<lparr> buffer := e @ y \<rparr>) r
       = processLoop (p\<lparr> currentToolArgs := currentToolArgs p @ e, buffer := y \<rparr>) r"
proof (cases "e = []")
  case True
  then show ?thesis by simp
next
  case False
  let ?T = CALL_END
  let ?q = "p\<lparr> buffer := e @ y \<rparr>"
  let ?qy = "p\<lparr> currentToolArgs := currentToolArgs p @ e, buffer := y \<rparr>"
  have q: "inToolSection ?q" "inToolCall ?q" "inArguments ?q"
    and qy: "inToolSection ?qy" "inToolCall ?qy" "inArguments ?qy"
    using assms(1-3) by simp_all
  have io: "indexOf (e @ y) ?T = map_option (\<lambda>i. length e + i) (indexOf y ?T)"
    using assms(4) by (rule clear_indexOf)
  have fp: "findPartialMatch (e @ y) ?T = findPartialMatch y ?T"
    using assms(4) by (rule clear_findPartialMatch)
  have kle: "findPartialMatch y ?T \<le> length y" by (rule findPartialMatch_le_text)
  have qne: "buffer ?q \<noteq> []" using False by simp
  show ?thesis
  proof (cases "indexOf y ?T")
    case None
    then have n: "indexOf (buffer ?q) ?T = None" "indexOf (buffer ?qy) ?T = None"
      using io by simp_all
    have s1: "step ?q = (p\<lparr> currentToolArgs := currentToolArgs p @ e
                               @ take (length y - findPartialMatch y ?T) y,
                            buffer := drop (length y - findPartialMatch y ?T) y \<rparr>, [], False)"
      using step_args_pending [OF q n(1)] fp kle by simp
    have s2: "step ?qy = (p\<lparr> currentToolArgs := currentToolArgs p @ e
                               @ take (length y - findPartialMatch y ?T) y,
                            buffer := drop (length y - findPartialMatch y ?T) y \<rparr>, [], False)"
      using step_args_pending [OF qy n(2)] by simp
    show ?thesis
    proof (cases "y = []")
      case True
      have "findPartialMatch y ?T = 0" using kle True by simp
      then show ?thesis
        using processLoop_stop [OF qne s1, of r] True by (simp add: processLoop_empty)
    next
      case yne: False
      then have "buffer ?qy \<noteq> []" by simp
      moreover have "step ?q = step ?qy" using s1 s2 by simp
      ultimately show ?thesis using qne processLoop_same_step by blast
    qed
  next
    case (Some i)
    then have f: "indexOf (buffer ?q) ?T = Some (length e + i)" "indexOf (buffer ?qy) ?T = Some i"
      using io by simp_all
    have "i + length ?T \<le> length y" using Some by (rule indexOf_le)
    then have yne: "buffer ?qy \<noteq> []" by (auto simp: CALL_END_def)
    have "step ?q = step ?qy"
      using step_args_found [OF q f(1)] step_args_found [OF qy f(2)] by (simp add: add.assoc)
    then show ?thesis using qne yne processLoop_same_step by blast
  qed
qed


lemma step_found_extend:
  assumes "indexOf (buffer p) (awaited p) = Some i"
  shows "\<exists>p' out. step p = (p', out, True)
          \<and> step (p\<lparr> buffer := buffer p @ b \<rparr>) = (p'\<lparr> buffer := buffer p' @ b \<rparr>, out, True)"
proof -
  have f: "indexOf (buffer p @ b) (awaited p) = Some i"
    using assms by (rule indexOf_append_found)
  have l: "i + length (awaited p) \<le> length (buffer p)" using assms by (rule indexOf_le)
  then have d: "drop (i + length (awaited p)) (buffer p @ b)
                  = drop (i + length (awaited p)) (buffer p) @ b"
    and t: "take i (buffer p @ b) = take i (buffer p)" by simp_all
  consider (scan) "\<not> inToolSection p"
    | (sect) "inToolSection p" "\<not> inToolCall p"
    | (name) "inToolSection p" "inToolCall p" "\<not> inArguments p"
    | (args) "inToolSection p" "inToolCall p" "inArguments p" by blast
  then show ?thesis
  proof cases
    case scan
    then show ?thesis using assms f d t by (simp add: step_def awaited_def del: take_append drop_append)
  next
    case sect
    then show ?thesis using assms f d t by (simp add: step_def awaited_def del: take_append drop_append)
  next
    case name
    then show ?thesis using assms f d t by (simp add: step_def awaited_def del: take_append drop_append)
  next
    case args
    then show ?thesis using assms f d t by (simp add: step_def awaited_def Let_def del: take_append drop_append)
  qed
qed

lemma loop_extend:
  "fst (processLoop ((fst (processLoop p []))\<lparr> buffer := buffer (fst (processLoop p [])) @ b \<rparr>) [])
     = fst (processLoop (p\<lparr> buffer := buffer p @ b \<rparr>) [])
   \<and> trace (snd (processLoop p [])
        @ snd (processLoop ((fst (processLoop p []))\<lparr> buffer := buffer (fst (processLoop p [])) @ b \<rparr>) []))
     = trace (snd (processLoop (p\<lparr> buffer := buffer p @ b \<rparr>) []))"
proof (induction p rule: parser_induct)
  case (pass p)
  show ?case
  proof (cases "buffer p = []")
    case True
    then show ?thesis by (simp add: processLoop_empty)
  next
    case False
    let ?n = "length (buffer p)"
    show ?thesis
    proof (cases "indexOf (buffer p) (awaited p)")
      case (Some i)
      from step_found_extend [OF Some, of b] obtain p' out where
        st: "step p = (p', out, True)"
        and stb: "step (p\<lparr> buffer := buffer p @ b \<rparr>) = (p'\<lparr> buffer := buffer p' @ b \<rparr>, out, True)"
        by blast
      have ne: "buffer (p\<lparr> buffer := buffer p @ b \<rparr>) \<noteq> []" using False by simp
      have a: "processLoop p [] = (fst (processLoop p' []), out @ snd (processLoop p' []))"
        using processLoop_continue [OF False st, of "[]"] processLoop_results [of p' out] by simp
      have c: "processLoop (p\<lparr> buffer := buffer p @ b \<rparr>) []
          = (fst (processLoop (p'\<lparr> buffer := buffer p' @ b \<rparr>) []),
             out @ snd (processLoop (p'\<lparr> buffer := buffer p' @ b \<rparr>) []))"
        using processLoop_continue [OF ne stb, of "[]"]
          processLoop_results [of "p'\<lparr> buffer := buffer p' @ b \<rparr>" out] by simp
      show ?thesis
        using pass [OF False st] unfolding a c by (simp add: trace_append)
    next
      case None
      consider (scan) "\<not> inToolSection p"
        | (sect) "inToolSection p" "\<not> inToolCall p"
        | (name) "inToolSection p" "inToolCall p" "\<not> inArguments p"
        | (args) "inToolSection p" "inToolCall p" "inArguments p" by blast
      then show ?thesis
      proof cases
        case scan
        let ?k = "findPartialMatch (buffer p) SECTION_BEGIN"
        let ?e = "take (?n - ?k) (buffer p)" and ?s = "drop (?n - ?k) (buffer p)"
        have n: "indexOf (buffer p) SECTION_BEGIN = None" using None scan by (simp add: awaited_def)
        have a: "processLoop p [] = (p\<lparr> buffer := ?s \<rparr>, (if ?k < ?n then [Thinking ?e] else []))"
          using scanning_pending [OF scan n] by simp
        have tr: "trace (if ?k < ?n then [Thinking ?e] else []) = map ThinkingChar ?e" by simp
        have eb: "buffer p @ b = ?e @ ?s @ b" by simp
        have cl: "clear ?e (?s @ b) SECTION_BEGIN" using n by (rule clear_pending)
        show ?thesis
          unfolding a fst_conv snd_conv trace_append tr
          using scanning_clear [OF scan cl] by (simp only: eb) simp
      next
        case sect
        have "step p = (p, [], False)" using None sect by (simp add: step_def awaited_def)
        then have "processLoop p [] = (p, [])" using processLoop_stop [OF False] by simp
        then show ?thesis by simp
      next
        case name
        let ?k = "findPartialMatch (buffer p) ARG_BEGIN"
        let ?e = "take (?n - ?k) (buffer p)" and ?s = "drop (?n - ?k) (buffer p)"
        have n: "indexOf (buffer p) ARG_BEGIN = None" using None name by (simp add: awaited_def)
        have a: "processLoop p [] = (p\<lparr> currentToolName := currentToolName p @ ?e, buffer := ?s \<rparr>, [])"
          using processLoop_stop [OF False step_name_pending [OF name n], of "[]"] by simp
        have eb: "buffer p @ b = ?e @ ?s @ b" by simp
        have cl: "clear ?e (?s @ b) ARG_BEGIN" using n by (rule clear_pending)
        show ?thesis
          unfolding a fst_conv snd_conv
          using name_clear [OF name cl, of "[]"] by (simp only: eb) simp
      next
        case args
        let ?k = "findPartialMatch (buffer p) CALL_END"
        let ?e = "take (?n - ?k) (buffer p)" and ?s = "drop (?n - ?k) (buffer p)"
        have n: "indexOf (buffer p) CALL_END = None" using None args by (simp add: awaited_def)
        have a: "processLoop p [] = (p\<lparr> currentToolArgs := currentToolArgs p @ ?e, buffer := ?s \<rparr>, [])"
          using processLoop_stop [OF False step_args_pending [OF args n], of "[]"] by simp
        have eb: "buffer p @ b = ?e @ ?s @ b" by simp
        have cl: "clear ?e (?s @ b) CALL_END" using n by (rule clear_pending)
        show ?thesis
          unfolding a fst_conv snd_conv
          using args_clear [OF args cl, of "[]"] by (simp only: eb) simp
      qed
    qed
  qed
qed


lemma processChunk_append:
  "fst (processChunk (fst (processChunk p a)) b) = fst (processChunk p (a @ b))
   \<and> trace (snd (processChunk p a) @ snd (processChunk (fst (processChunk p a)) b))
     = trace (snd (processChunk p (a @ b)))"
  using loop_extend [of "p\<lparr> buffer := buffer p @ a \<rparr>" b]
  by (simp add: processChunk_def)

lemma feed_concat:
  "chunks \<noteq> [] \<Longrightarrow>
     fst (feed p chunks) = fst (processChunk p (concat chunks))
     \<and> trace (snd (feed p chunks)) = trace (snd (processChunk p (concat chunks)))"
proof (induction chunks arbitrary: p rule: list_nonempty_induct)
  case (single c)
  show ?case by (cases "processChunk p c") simp
next
  case (cons c cs)
  obtain p1 r1 where pc: "processChunk p c = (p1, r1)" by (cases "processChunk p c") auto
  obtain p2 r2 where fd: "feed p1 cs = (p2, r2)" by (cases "feed p1 cs") auto
  have ih: "p2 = fst (processChunk p1 (concat cs))"
    "trace r2 = trace (snd (processChunk p1 (concat cs)))"
    using cons.IH [of p1] fd by simp_all
  have ap: "fst (processChunk p1 (concat cs)) = fst (processChunk p (c @ concat cs))"
    "trace (r1 @ snd (processChunk p1 (concat cs))) = trace (snd (processChunk p (c @ concat cs)))"
    using processChunk_append [of p c "concat cs"] pc by simp_all
  show ?case using ih ap by (simp add: pc fd trace_append)
qed

lemma step_no_sentinel:
  assumes "step p = (p', out, c)" "Thinking s \<in> set out"
  shows "\<not> sublist SECTION_BEGIN s"
proof (cases "indexOf (buffer p) SECTION_BEGIN")
  case None
  have "s = take (length (buffer p) - findPartialMatch (buffer p) SECTION_BEGIN) (buffer p)
        \<or> s = take (length (buffer p)) (buffer p)"
    using assms None by (auto simp: step_def Let_def split: if_splits option.splits)
  then show ?thesis using no_sentinel_take [OF None] by metis
next
  case (Some i)
  have ne: "SECTION_BEGIN \<noteq> []" by (simp add: SECTION_BEGIN_def)
  have "s = take i (buffer p)"
    using assms Some by (auto simp: step_def Let_def split: if_splits option.splits)
  then show ?thesis using no_sentinel_before_first [OF Some ne] by simp
qed

lemma processLoop_no_sentinel:
  "Thinking s \<in> set (snd (processLoop p [])) \<Longrightarrow> \<not> sublist SECTION_BEGIN s"
proof (induction p rule: parser_induct)
  case (pass p)
  show ?case
  proof (cases "buffer p = []")
    case True
    with pass.prems show ?thesis by (simp add: processLoop_empty)
  next
    case False
    obtain p' out c where st: "step p = (p', out, c)" by (cases "step p") auto
    show ?thesis
    proof (cases c)
      case True
      with st have st': "step p = (p', out, True)" by simp
      have "processLoop p [] = (fst (processLoop p' []), out @ snd (processLoop p' []))"
        using processLoop_continue [OF False st', of "[]"] processLoop_results [of p' out] by simp
      with pass.prems have "Thinking s \<in> set out \<or> Thinking s \<in> set (snd (processLoop p' []))"
        by auto
      then show ?thesis using step_no_sentinel [OF st'] pass.IH [OF False st'] by blast
    next
      case False2: False
      with st have st': "step p = (p', out, False)" by simp
      with pass.prems have "Thinking s \<in> set out" using processLoop_stop [OF False st', of "[]"] by simp
      then show ?thesis using step_no_sentinel [OF st'] by blast
    qed
  qed
qed

lemma processChunk_no_sentinel:
  "Thinking s \<in> set (snd (processChunk p chunk)) \<Longrightarrow> \<not> includesStr s SECTION_BEGIN"
  using processLoop_no_sentinel [of s "p\<lparr> buffer := buffer p @ chunk \<rparr>"]
  by (simp add: processChunk_def includesStr_def indexOf_None_iff)

lemma feed_no_sentinel:
  "Thinking s \<in> set (snd (feed p chunks)) \<Longrightarrow> \<not> includesStr s SECTION_BEGIN"
proof (induction chunks arbitrary: p)
  case Nil
  then show ?case by simp
next
  case (Cons c cs)
  obtain p1 r1 where pc: "processChunk p c = (p1, r1)" by (cases "processChunk p c") auto
  obtain p2 r2 where fd: "feed p1 cs = (p2, r2)" by (cases "feed p1 cs") auto
  from Cons.prems have "Thinking s \<in> set r1 \<or> Thinking s \<in> set r2" by (auto simp: pc fd)
  then show ?case
    using processChunk_no_sentinel [of s p c] Cons.IH [of p1] by (auto simp: pc fd)
qed


lemma feed_newParser_concat:
  "fst (feed newParser chunks) = fst (feed newParser [concat chunks])
   \<and> trace (snd (feed newParser chunks)) = trace (snd (feed newParser [concat chunks]))"
proof (cases "chunks = []")
  case True
  then show ?thesis by (simp add: processChunk_def newParser_def processLoop_empty)
next
  case False
  from feed_concat [OF False, of newParser] show ?thesis
    by (cases "processChunk newParser (concat chunks)") simp
qed

lemma parseStream_concat: "trace (parseStream chunks) = trace (parseStream [concat chunks])"
proof -
  obtain p r where a: "feed newParser chunks = (p, r)" by (cases "feed newParser chunks") auto
  obtain p' r' where b: "feed newParser [concat chunks] = (p', r')"
    by (cases "feed newParser [concat chunks]") auto
  have "p = p'" "trace r = trace r'" using feed_newParser_concat [of chunks] a b by simp_all
  then show ?thesis unfolding parseStream_def a b by (simp add: trace_append)
qed

lemma processChunk_scanning_pending:
  assumes "\<not> inToolSection p" "\<not> includesStr (buffer p @ chunk) SECTION_BEGIN"
  shows "processChunk p chunk =
    (let B = buffer p @ chunk; k = findPartialMatch B SECTION_BEGIN in
     (p\<lparr> buffer := drop (length B - k) B \<rparr>,
      (if k < length B then [Thinking (take (length B - k) B)] else [])))"
proof -
  let ?q = "p\<lparr> buffer := buffer p @ chunk \<rparr>"
  have q: "\<not> inToolSection ?q" "indexOf (buffer ?q) SECTION_BEGIN = None"
    using assms by (simp_all add: includesStr_def)
  show ?thesis
    using scanning_pending [OF q] by (simp add: processChunk_def Let_def del: take_append drop_append)
qed

lemma processChunk_name_pending:
  assumes "inToolSection p" "inToolCall p" "\<not> inArguments p"
    and "\<not> includesStr (buffer p @ chunk) ARG_BEGIN"
  shows "processChunk p chunk =
    (let B = buffer p @ chunk; k = findPartialMatch B ARG_BEGIN in
     (p\<lparr> currentToolName := currentToolName p @ take (length B - k) B,
         buffer := drop (length B - k) B \<rparr>, []))"
proof -
  let ?q = "p\<lparr> buffer := buffer p @ chunk \<rparr>"
  have q: "inToolSection ?q" "inToolCall ?q" "\<not> inArguments ?q"
    "indexOf (buffer ?q) ARG_BEGIN = None"
    using assms by (simp_all add: includesStr_def)
  show ?thesis
  proof (cases "buffer ?q = []")
    case True
    then have e: "buffer p = []" "chunk = []" by simp_all
    have "findPartialMatch [] ARG_BEGIN = 0"
      using findPartialMatch_le_text [of "[]" ARG_BEGIN] by simp
    moreover have "p\<lparr> buffer := [] \<rparr> = p" using e by (cases p) simp
    ultimately show ?thesis using e by (simp add: processChunk_def processLoop_empty Let_def)
  next
    case False
    from processLoop_stop [OF False step_name_pending [OF q], of "[]"]
    show ?thesis by (simp add: processChunk_def Let_def del: take_append drop_append)
  qed
qed

lemma processChunk_args_pending:
  assumes "inToolSection p" "inToolCall p" "inArguments p"
    and "\<not> includesStr (buffer p @ chunk) CALL_END"
  shows "processChunk p chunk =
    (let B = buffer p @ chunk; k = findPartialMatch B CALL_END in
     (p\<lparr> currentToolArgs := currentToolArgs p @ take (length B - k) B,
         buffer := drop (length B - k) B \<rparr>, []))"
proof -
  let ?q = "p\<lparr> buffer := buffer p @ chunk \<rparr>"
  have q: "inToolSection ?q" "inToolCall ?q" "inArguments ?q"
    "indexOf (buffer ?q) CALL_END = None"
    using assms by (simp_all add: includesStr_def)
  show ?thesis
  proof (cases "buffer ?q = []")
    case True
    then have e: "buffer p = []" "chunk = []" by simp_all
    have "findPartialMatch [] CALL_END = 0"
      using findPartialMatch_le_text [of "[]" CALL_END] by simp
    moreover have "p\<lparr> buffer := [] \<rparr> = p" using e by (cases p) simp
    ultimately show ?thesis using e by (simp add: processChunk_def processLoop_empty Let_def)
  next
    case False
    from processLoop_stop [OF False step_args_pending [OF q], of "[]"]
    show ?thesis by (simp add: processChunk_def Let_def del: take_append drop_append)
  qed
qed

lemma processChunk_section_pending:
  assumes "inToolSection p" "\<not> inToolCall p"
    and "\<not> includesStr (buffer p @ chunk) CALL_BEGIN"
  shows "processChunk p chunk = (p\<lparr> buffer := buffer p @ chunk \<rparr>, [])"
proof -
  let ?q = "p\<lparr> buffer := buffer p @ chunk \<rparr>"
  have s: "step ?q = (?q, [], False)"
    using assms by (simp add: step_def includesStr_def)
  show ?thesis
  proof (cases "buffer ?q = []")
    case True
    then show ?thesis by (simp add: processChunk_def processLoop_empty)
  next
    case False
    from processLoop_stop [OF False s, of "[]"]
    show ?thesis by (simp add: processChunk_def)
  qed
qed

lemma parseStream_plain:
  assumes "\<not> includesStr (concat chunks) SECTION_BEGIN"
  shows "concat (map content (parseStream chunks)) = concat chunks"
proof -
  have "\<not> sublist SECTION_BEGIN (buffer newParser @ concat chunks)"
    using assms by (simp add: includesStr_def indexOf_None_iff newParser_def)
  moreover have "\<not> inToolSection newParser" by (simp add: newParser_def)
  ultimately have
    "concat (map content (snd (feed newParser chunks))) @ buffer (fst (feed newParser chunks))
       = buffer newParser @ concat chunks"
    using feed_scanning by blast
  moreover obtain p rs where fd: "feed newParser chunks = (p, rs)"
    by (cases "feed newParser chunks") auto
  ultimately have inv: "concat (map content rs) @ buffer p = concat chunks"
    by (simp add: newParser_def)
  show ?thesis
  proof (cases "buffer p = []")
    case True
    with inv show ?thesis by (simp add: parseStream_def flush_def fd)
  next
    case False
    with inv show ?thesis by (simp add: parseStream_def flush_def fd)
  qed
qed

lemma content_sublist:
  assumes "Thinking s \<in> set rs"
  shows "sublist s (concat (map content rs))"
proof -
  from assms obtain xs ys where "rs = xs @ Thinking s # ys" by (meson split_list)
  then have "concat (map content rs) = concat (map content xs) @ s @ concat (map content ys)"
    by simp
  then show ?thesis unfolding sublist_def by blast
qed

lemma parseStream_no_sentinel:
  assumes "\<not> includesStr (concat chunks) SECTION_BEGIN" "Thinking s \<in> set (parseStream chunks)"
  shows "\<not> includesStr s SECTION_BEGIN"
proof
  assume "includesStr s SECTION_BEGIN"
  then have "sublist SECTION_BEGIN s" by (simp add: includesStr_def indexOf_None_iff)
  moreover have "sublist s (concat chunks)"
    using content_sublist [OF assms(2)] parseStream_plain [OF assms(1)] by simp
  ultimately have "sublist SECTION_BEGIN (concat chunks)" by (rule sublist_order.order_trans)
  then show False using assms(1) by (simp add: includesStr_def indexOf_None_iff)
qed

section \<open>Facts about the provider\<close>

text \<open>The number 1, rounded and printed.\<close>

lemma bitLength_small: "bitLength (Suc 0) = 1" "bitLength 2 = 2"
  by (simp_all add: bitLength.simps)

lemma toDouble_1: "toDouble (Suc 0) (Suc 0) = Finite 4503599627370496 (- 52)"
  by (simp add: toDouble_def floorLog2_def bitLength_small roundHalfEven_def Let_def)

lemma toDouble_2: "toDouble 2 (Suc 0) = Finite 4503599627370496 (- 51)"
  by (simp add: toDouble_def floorLog2_def bitLength_small roundHalfEven_def Let_def)

lemma decimalLength_16: "decimalLength 4503599627370496 = 16"
  by (simp add: decimalLength.simps)

lemma digitsOfLength_1: "digitsOfLength 4503599627370496 (- 52) (Suc 0) = Some (Suc 0, 0)"
  by (simp add: digitsOfLength_def binaryFraction_def floorLog10_def decimalLength_16
      validDigits_def decimalFraction_def toDouble_1 toDouble_2 Let_def)

lemma shortestDigits_first:
  "digitsOfLength m b k = Some st \<Longrightarrow> shortestDigits m b k (Suc fuel) = st"
  by simp

lemma printFinite_1: "printFinite 4503599627370496 (- 52) = ''1''"
proof -
  have "(17::nat) = Suc 16" by simp
  then have "shortestDigits 4503599627370496 (- 52) (Suc 0) 17 = (Suc 0, 0)"
    using shortestDigits_first [OF digitsOfLength_1, of 16] by simp
  then show ?thesis
    by (simp add: printFinite_def stripZeros.simps natToDecimal.simps formatDigits_def)
qed

lemma numberText_1: "numberText False ''1'' [] 0 = ''1''"
  by (simp add: numberText_def natOfDigits_def decimalFraction_def toDouble_1 printFinite_1)

lemma parseNumber_1: "parseNumber ''1}'' = Some (''1'', ''}'')"
  by (simp add: parseNumber_def parseInt_def parseDigits_def isDigit_def parseFraction_def
      parseExponent_def numberText_1)

lemmas json_eval = tryParseJSONObject_def parseJSON_def skipSpace_def isJsonSpace_def
  unescape_def isHexDigit_def hexValue_def hexNumber_def codeUnits_def setMember_def
  isArrayIndex_def indexValue_def parseNumber_1

lemmas provider_eval = processStreamingResponse_def newProvider_def processDelta_def
  contentDelta_def toolCallDelta_def finishDelta_def emptyChoice_def truthy_def
  processContent_def processXmlThinkBlocks_def
  xmlThinkLoop.simps THINK_START_def THINK_END_def processTextContent_def trim_def isWhiteSpace_def
  idOrUndefined_def processToolCallsDelta_def processToolCall_def tryEmitBufferedToolCall_def
  flushToolCallBuffers_def callIdOf_def finalIdOf_def Let_def

lemmas providerC_eval = processStreamingResponseC_def newProviderC_def processDeltaC_def
  contentDeltaC_def emptyChoiceC_def truthy_def processContentC_def processXmlThinkBlocksC_def
  xmlThinkLoopC.simps THINK_START_def THINK_END_def trim_def isWhiteSpace_def
  closeActiveThinking_def ensureThinkingIdC_def Let_def

lemma splitStr_once:
  assumes "indexOf s sep = Some i" "indexOf (drop (i + length sep) s) sep = None" "sep \<noteq> []"
  shows "splitStr s sep = [take i s, drop (i + length sep) s]"
  using assms by (simp add: splitStr.simps [of s] splitStr.simps [of "drop (i + length sep) s"])

lemma splitStr_none: "indexOf s sep = None \<Longrightarrow> sep \<noteq> [] \<Longrightarrow> splitStr s sep = [s]"
  by (simp add: splitStr.simps [of s])

lemma splitStr_two:
  assumes "indexOf s sep = Some k" "sep \<noteq> []"
  shows "\<exists>rest. splitStr s sep
      = take k s # (case indexOf (drop (k + length sep) s) sep of
                      None \<Rightarrow> drop (k + length sep) s
                    | Some j \<Rightarrow> take j (drop (k + length sep) s)) # rest"
  using assms
  by (simp add: splitStr.simps [of s] splitStr.simps [of "drop (k + length sep) s"]
      split: option.splits)

lemma restoreToolCall_found:
  assumes "indexOf (toolCallId tc) SIG_SEPARATOR = Some k"
  shows "restoreToolCall tc
      = (let realId = take k (toolCallId tc);
             rest = drop (k + length SIG_SEPARATOR) (toolCallId tc);
             signature = (case indexOf rest SIG_SEPARATOR of None \<Rightarrow> rest | Some j \<Rightarrow> take j rest)
         in if realId \<noteq> [] \<and> signature \<noteq> []
            then tc\<lparr> toolCallId := realId, providerThoughtSignature := Some signature \<rparr>
            else tc)"
proof -
  have ne: "SIG_SEPARATOR \<noteq> []" by (simp add: SIG_SEPARATOR_def)
  from splitStr_two [OF assms ne] obtain rest where
    s: "splitStr (toolCallId tc) SIG_SEPARATOR
      = take k (toolCallId tc) # (case indexOf (drop (k + length SIG_SEPARATOR) (toolCallId tc)) SIG_SEPARATOR of
                      None \<Rightarrow> drop (k + length SIG_SEPARATOR) (toolCallId tc)
                    | Some j \<Rightarrow> take j (drop (k + length SIG_SEPARATOR) (toolCallId tc))) # rest"
    by blast
  have inc: "includesStr (toolCallId tc) SIG_SEPARATOR" using assms by (simp add: includesStr_def)
  show ?thesis using inc by (simp add: restoreToolCall_def s Let_def)
qed

lemma callIdOf_fst_buffers:
  "fst (callIdOf h (st\<lparr> toolCallBuffers := bs \<rparr>) buf) = fst (callIdOf h st buf)"
  by (simp add: callIdOf_def split: option.splits)

lemma reportsFor_append: "reportsFor i (xs @ ys) = reportsFor i xs + reportsFor i ys"
  by (simp add: reportsFor_def)

lemma reportsFor_unlabelled: "\<forall>r \<in> set out. fst r = None \<Longrightarrow> reportsFor i out = 0"
  by (induction out) (auto simp: reportsFor_def)

lemma accounted_same:
  assumes "buffersOk st'" "completedToolCallIndices st' = completedToolCallIndices st"
    and "\<forall>r \<in> set out. fst r = None"
  shows "accounted st out st'"
  using assms by (simp add: accounted_def reportsFor_unlabelled)

lemma accounted_trans:
  assumes "accounted st out1 st1" "accounted st1 out2 st2"
  shows "accounted st (out1 @ out2) st2"
  using assms unfolding accounted_def reportsFor_append
  by (auto split: if_splits)

lemma accounted_from:
  assumes "accounted st1 out st'" "completedToolCallIndices st1 = completedToolCallIndices st"
  shows "accounted st out st'"
  using assms by (simp add: accounted_def)

lemma buffersOk_emit:
  assumes "buffersOk st" "index \<notin> completedToolCallIndices st"
  shows "buffersOk (st\<lparr> toolCallBuffers := AList.delete index (toolCallBuffers st),
                       completedToolCallIndices := insert index (completedToolCallIndices st) \<rparr>)"
  using assms by (auto simp: buffersOk_def distinct_delete delete_conv')

lemma buffersOk_draw: "buffersOk (st\<lparr> randomDraws := n \<rparr>) = buffersOk st"
  by (simp add: buffersOk_def)

lemma callIdOf_same:
  "toolCallBuffers (snd (callIdOf h st buf)) = toolCallBuffers st
   \<and> completedToolCallIndices (snd (callIdOf h st buf)) = completedToolCallIndices st"
  by (simp add: callIdOf_def split: option.splits)

lemma buffersOk_callIdOf: "buffersOk (snd (callIdOf h st buf)) = buffersOk st"
  by (simp add: buffersOk_def callIdOf_same)

lemma accounted_emit:
  assumes "buffersOk st" "index \<notin> completedToolCallIndices st"
  shows "accounted st [(Some index, part)]
           (st\<lparr> toolCallBuffers := AList.delete index (toolCallBuffers st),
                completedToolCallIndices := insert index (completedToolCallIndices st) \<rparr>)"
  using buffersOk_emit [OF assms] assms(2)
  by (auto simp: accounted_def reportsFor_def)

lemma tryEmit_accounted:
  assumes "buffersOk st"
  shows "accounted st (snd (tryEmitBufferedToolCall h st index)) (fst (tryEmitBufferedToolCall h st index))"
proof (cases "map_of (toolCallBuffers st) index")
  case None
  then show ?thesis using assms by (simp add: tryEmitBufferedToolCall_def accounted_same)
next
  case (Some buf)
  then have nc: "index \<notin> completedToolCallIndices st" using assms by (auto simp: buffersOk_def)
  show ?thesis
  proof (cases "truthy (bufName buf) \<and> parseArguments h (args buf) \<noteq> None")
    case False
    then show ?thesis using Some assms
      by (auto simp: tryEmitBufferedToolCall_def accounted_same split: option.splits)
  next
    case True
    then obtain v where v: "parseArguments h (args buf) = Some v" by blast
    obtain i st1 where c: "callIdOf h st buf = (i, st1)" by (cases "callIdOf h st buf") auto
    have ok1: "buffersOk st1" using buffersOk_callIdOf [of h st buf] c assms by simp
    have cs: "completedToolCallIndices st1 = completedToolCallIndices st"
      using callIdOf_same [of h st buf] c by simp
    have "accounted st1 [(Some index, LanguageModelToolCallPart (finalIdOf i buf) (the (bufName buf)) v)]
           (st1\<lparr> toolCallBuffers := AList.delete index (toolCallBuffers st1),
                completedToolCallIndices := insert index (completedToolCallIndices st1) \<rparr>)"
      using accounted_emit [OF ok1] nc cs by simp
    then show ?thesis
      using True Some v c cs by (simp add: tryEmitBufferedToolCall_def accounted_from)
  qed
qed

lemma buffersOk_update:
  assumes "buffersOk st" "index \<notin> completedToolCallIndices st"
  shows "buffersOk (st\<lparr> toolCallBuffers := AList.update index buf (toolCallBuffers st) \<rparr>)"
  using assms by (auto simp: buffersOk_def distinct_update update_conv')

lemma processToolCall_accounted:
  assumes "buffersOk st"
  shows "accounted st (snd (processToolCall h st tc)) (fst (processToolCall h st tc))"
proof -
  let ?idx = "case tcIndex tc of Some i \<Rightarrow> i | None \<Rightarrow> 0"
  show ?thesis
  proof (cases "?idx \<in> completedToolCallIndices st")
    case True
    then show ?thesis using assms by (simp add: processToolCall_def accounted_same)
  next
    case False
    obtain buf where
      eq: "processToolCall h st tc = tryEmitBufferedToolCall h
              (st\<lparr> toolCallBuffers := AList.update ?idx buf (toolCallBuffers st) \<rparr>) ?idx"
      using False by (simp add: processToolCall_def Let_def)
    let ?st1 = "st\<lparr> toolCallBuffers := AList.update ?idx buf (toolCallBuffers st) \<rparr>"
    have "buffersOk ?st1" using assms False by (rule buffersOk_update)
    then have "accounted ?st1 (snd (tryEmitBufferedToolCall h ?st1 ?idx))
                 (fst (tryEmitBufferedToolCall h ?st1 ?idx))"
      by (rule tryEmit_accounted)
    then show ?thesis unfolding eq by (rule accounted_from) simp
  qed
qed

lemma processToolCalls_accounted:
  "buffersOk st \<Longrightarrow> accounted st (snd (processToolCalls h st tcs)) (fst (processToolCalls h st tcs))"
proof (induction tcs arbitrary: st)
  case Nil
  then show ?case by (simp add: accounted_same)
next
  case (Cons tc tcs)
  obtain st1 out1 where a: "processToolCall h st tc = (st1, out1)"
    by (cases "processToolCall h st tc") auto
  obtain st2 out2 where b: "processToolCalls h st1 tcs = (st2, out2)"
    by (cases "processToolCalls h st1 tcs") auto
  have a1: "accounted st out1 st1" using processToolCall_accounted [OF Cons.prems, of h tc] a by simp
  then have "buffersOk st1" by (simp add: accounted_def)
  then have "accounted st1 out2 st2" using Cons.IH [of st1] b by simp
  with a1 show ?case by (simp add: a b accounted_trans)
qed


lemma flushEntries_accounted:
  assumes "buffersOk st" "distinct (map fst entries)"
    and "\<forall>e \<in> set entries. fst e \<notin> completedToolCallIndices st"
  shows "accounted st (fst (snd (flushEntries h t entries st))) (fst (flushEntries h t entries st))"
  using assms
proof (induction entries arbitrary: st)
  case Nil
  then show ?case by (simp add: accounted_same)
next
  case (Cons e entries)
  obtain idx buf where e: "e = (idx, buf)" by (cases e) auto
  have nc: "idx \<notin> completedToolCallIndices st" using Cons.prems(3) e by simp
  show ?case
  proof (cases "parseArguments h (args buf)")
    case None
    show ?thesis
    proof (cases t)
      case True
      then show ?thesis using None e Cons.prems(1) by (simp add: accounted_same)
    next
      case False
      have "accounted st (fst (snd (flushEntries h t entries st))) (fst (flushEntries h t entries st))"
        using Cons.IH [OF Cons.prems(1)] Cons.prems(2,3) by simp
      then show ?thesis using None e False by simp
    qed
  next
    case (Some v)
    obtain i st1 where c: "callIdOf h st buf = (i, st1)" by (cases "callIdOf h st buf") auto
    have ok1: "buffersOk st1" using buffersOk_callIdOf [of h st buf] c Cons.prems(1) by simp
    have cs: "completedToolCallIndices st1 = completedToolCallIndices st"
      using callIdOf_same [of h st buf] c by simp
    let ?st2 = "st1\<lparr> toolCallBuffers := AList.delete idx (toolCallBuffers st1),
                   completedToolCallIndices := insert idx (completedToolCallIndices st1) \<rparr>"
    let ?part = "LanguageModelToolCallPart (finalIdOf i buf)
                   (case bufName buf of Some n \<Rightarrow> n | None \<Rightarrow> ''unknown_tool'') v"
    have a1: "accounted st [(Some idx, ?part)] ?st2"
      using accounted_emit [OF ok1, of idx ?part] nc cs by (simp add: accounted_from)
    have ok2: "buffersOk ?st2" using a1 by (simp add: accounted_def)
    have d: "distinct (map fst entries)" using Cons.prems(2) by simp
    have n2: "\<forall>e' \<in> set entries. fst e' \<notin> completedToolCallIndices ?st2"
      using Cons.prems(2,3) e cs by auto
    have a2: "accounted ?st2 (fst (snd (flushEntries h t entries ?st2)))
                (fst (flushEntries h t entries ?st2))"
      using Cons.IH [OF ok2 d n2] .
    obtain st3 out err where f: "flushEntries h t entries ?st2 = (st3, out, err)"
      by (cases "flushEntries h t entries ?st2") auto
    have "accounted st ([(Some idx, ?part)] @ out) st3"
      using accounted_trans [OF a1] a2 f by simp
    then show ?thesis using Some e c f by simp
  qed
qed

lemma flushToolCallBuffers_accounted:
  assumes "buffersOk st"
  shows "accounted st (fst (snd (flushToolCallBuffers h st t))) (fst (flushToolCallBuffers h st t))"
proof -
  have d: "distinct (map fst (toolCallBuffers st))" using assms by (simp add: buffersOk_def)
  have "\<forall>e \<in> set (toolCallBuffers st). fst e \<notin> completedToolCallIndices st"
  proof
    fix e assume e: "e \<in> set (toolCallBuffers st)"
    show "fst e \<notin> completedToolCallIndices st"
    proof
      assume "fst e \<in> completedToolCallIndices st"
      then have "map_of (toolCallBuffers st) (fst e) = None" using assms by (simp add: buffersOk_def)
      then have "fst e \<notin> fst ` set (toolCallBuffers st)" by (simp add: map_of_eq_None_iff)
      with e show False by blast
    qed
  qed
  with assms d show ?thesis unfolding flushToolCallBuffers_def by (rule flushEntries_accounted)
qed

lemma sameCalls_accounted:
  "buffersOk st \<Longrightarrow> sameCalls st st' \<Longrightarrow> \<forall>r \<in> set out. fst r = None \<Longrightarrow> accounted st out st'"
  by (rule accounted_same) (simp_all add: sameCalls_def buffersOk_def)

lemma sameCalls_trans: "sameCalls a b \<Longrightarrow> sameCalls b c \<Longrightarrow> sameCalls a c"
  by (simp add: sameCalls_def)

lemma ensureThinkingId_same: "sameCalls st (snd (ensureThinkingId h st))"
  by (simp add: ensureThinkingId_def sameCalls_def)

lemma processReasoningDetail_same:
  "sameCalls st (fst (processReasoningDetail h st d))
   \<and> (\<forall>r \<in> set (snd (processReasoningDetail h st d)). fst r = None)"
  by (auto simp: processReasoningDetail_def Let_def ensureThinkingId_def sameCalls_def
      split: prod.splits)

lemma processReasoningDetails_same:
  "sameCalls st (fst (processReasoningDetails h st ds))
   \<and> (\<forall>r \<in> set (snd (processReasoningDetails h st ds)). fst r = None)"
proof (induction ds arbitrary: st)
  case Nil
  then show ?case by (simp add: sameCalls_def)
next
  case (Cons d ds)
  obtain st1 out1 where a: "processReasoningDetail h st d = (st1, out1)"
    by (cases "processReasoningDetail h st d") auto
  obtain st2 out2 where b: "processReasoningDetails h st1 ds = (st2, out2)"
    by (cases "processReasoningDetails h st1 ds") auto
  from processReasoningDetail_same [of st h d] a Cons.IH [of st1] b
  show ?case by (auto simp: a b intro: sameCalls_trans)
qed

lemma processLegacyThinking_same:
  "sameCalls st (fst (processLegacyThinking h st m))
   \<and> (\<forall>r \<in> set (snd (processLegacyThinking h st m)). fst r = None)"
  by (auto simp: processLegacyThinking_def Let_def ensureThinkingId_def sameCalls_def
      split: prod.splits LegacyThinking.splits option.splits)

lemma xmlThinkLoop_same:
  "\<forall>r \<in> set out. fst r = None \<Longrightarrow>
   sameCalls st (fst (xmlThinkLoop h st data out e))
   \<and> (\<forall>r \<in> set (fst (snd (xmlThinkLoop h st data out e))). fst r = None)"
proof (induction h st data out e rule: xmlThinkLoop.induct)
  case (1 h st data out emittedAny)
  show ?case
  proof (cases "data = []")
    case True
    then show ?thesis using "1.prems" by (simp add: xmlThinkLoop.simps sameCalls_def)
  next
    case False
    show ?thesis
    proof (cases "xmlThinkActive st")
      case inactive: False
      show ?thesis
      proof (cases "indexOf data THINK_START")
        case None
        then show ?thesis using False inactive "1.prems"
          by (simp add: xmlThinkLoop.simps [of h st data] sameCalls_def)
      next
        case (Some startIdx)
        from "1.IH"(1) [OF False inactive Some "1.prems"]
        show ?thesis using False inactive Some
          by (simp add: xmlThinkLoop.simps [of h st data] sameCalls_def)
      qed
    next
      case active: True
      show ?thesis
      proof (cases "indexOf data THINK_END")
        case None
        then show ?thesis using False active "1.prems"
          by (simp add: xmlThinkLoop.simps [of h st data] sameCalls_def)
      next
        case (Some endIdx)
        have "\<forall>r \<in> set (if take endIdx data \<noteq> [] then
                  out @ [(None, LanguageModelThinkingPart (take endIdx data)
                                  (idOrUndefined (currentThinkingId st)) None)]
                else out). fst r = None"
          using "1.prems" by simp
        from "1.IH"(2) [OF False _ Some this] active
        show ?thesis using False Some
          by (simp add: xmlThinkLoop.simps [of h st data] sameCalls_def)
      qed
    qed
  qed
qed

lemma processContent_same:
  "sameCalls st (fst (processContent h st input))
   \<and> (\<forall>r \<in> set (snd (processContent h st input)). fst r = None)"
proof -
  obtain st1 out1 e where x: "processXmlThinkBlocks h st input = (st1, out1, e)"
    by (cases "processXmlThinkBlocks h st input") auto
  have "sameCalls st st1 \<and> (\<forall>r \<in> set out1. fst r = None)"
    using x xmlThinkLoop_same [of "[]" st h input False]
    by (auto simp: processXmlThinkBlocks_def sameCalls_def split: if_splits)
  then show ?thesis
    by (auto simp: processContent_def x Let_def processTextContent_def sameCalls_def)
qed


lemma processToolCallsDelta_accounted:
  assumes "buffersOk st"
  shows "accounted st (snd (processToolCallsDelta h st tcs)) (fst (processToolCallsDelta h st tcs))"
proof -
  let ?hint = "\<not> emittedBeginToolCallsHint st \<and> hasEmittedAssistantText st \<and> tcs \<noteq> []"
  let ?st1 = "if ?hint then st\<lparr> emittedBeginToolCallsHint := True \<rparr> else st"
  let ?pre = "if ?hint then [(None, LanguageModelTextPart '' '')] else []"
  obtain st2 out where p: "processToolCalls h ?st1 tcs = (st2, out)"
    by (cases "processToolCalls h ?st1 tcs") auto
  have a0: "accounted st ?pre ?st1"
    using assms by (intro sameCalls_accounted) (auto simp: sameCalls_def)
  then have "buffersOk ?st1" by (simp add: accounted_def)
  then have "accounted ?st1 out st2" using processToolCalls_accounted [of ?st1 h tcs] p by simp
  with a0 have "accounted st (?pre @ out) st2" by (rule accounted_trans)
  then show ?thesis using p by (simp add: processToolCallsDelta_def Let_def)
qed

lemma processDelta_accounted:
  assumes "buffersOk st"
  shows "accounted st (fst (snd (processDelta h st choice))) (fst (processDelta h st choice))"
proof -
  let ?r1 = "if reasoningDetails choice \<noteq> []
            then processReasoningDetails h st (sortDetails (reasoningDetails choice))
            else (case legacyThinking choice of
                    None \<Rightarrow> (st, [])
                  | Some maybeThinking \<Rightarrow> processLegacyThinking h st maybeThinking)"
  obtain st1 out1 where r1: "?r1 = (st1, out1)" by (cases ?r1) auto
  have q1: "sameCalls st st1 \<and> (\<forall>r \<in> set out1. fst r = None)"
  proof (cases "reasoningDetails choice \<noteq> []")
    case True
    then show ?thesis
      using r1 processReasoningDetails_same [of st h "sortDetails (reasoningDetails choice)"]
      by simp
  next
    case False
    show ?thesis
    proof (cases "legacyThinking choice")
      case None
      then show ?thesis using False r1 by (auto simp: sameCalls_def)
    next
      case (Some m)
      then show ?thesis using False r1 processLegacyThinking_same [of st h m] by simp
    qed
  qed
  have a1: "accounted st out1 st1" using assms q1 by (simp add: sameCalls_accounted)
  let ?r2 = "if truthy (deltaContent choice)
                 then processContent h st1 (the (deltaContent choice))
                 else (st1, [])"
  obtain st2 out2 where r2: "?r2 = (st2, out2)" by (cases ?r2) auto
  have q2: "sameCalls st1 st2 \<and> (\<forall>r \<in> set out2. fst r = None)"
    using r2 processContent_same [of st1 h "the (deltaContent choice)"]
    by (auto simp: sameCalls_def split: if_splits)
  have ok1: "buffersOk st1" using a1 by (simp add: accounted_def)
  have a2: "accounted st1 out2 st2" using ok1 q2 by (simp add: sameCalls_accounted)
  let ?r3 = "case toolCalls choice of
                        None \<Rightarrow> (st2, [])
                      | Some tcs \<Rightarrow> processToolCallsDelta h st2 tcs"
  obtain st3 out3 where r3: "?r3 = (st3, out3)" by (cases ?r3) auto
  have ok2: "buffersOk st2" using a2 by (simp add: accounted_def)
  have a3: "accounted st2 out3 st3"
  proof (cases "toolCalls choice")
    case None
    then show ?thesis using r3 ok2 by (auto simp: accounted_same)
  next
    case (Some tcs)
    then show ?thesis using r3 processToolCallsDelta_accounted [OF ok2, of h tcs] by simp
  qed
  have a123: "accounted st (out1 @ out2 @ out3) st3"
    using accounted_trans [OF a1 accounted_trans [OF a2 a3]] .
  show ?thesis
  proof (cases "finishReason choice = Some ''tool_calls'' \<or> finishReason choice = Some ''stop''")
    case False
    then show ?thesis using a123 by (simp add: processDelta_def r1 r2 r3)
  next
    case True
    obtain st4 out4 err where f: "flushToolCallBuffers h st3 True = (st4, out4, err)"
      by (cases "flushToolCallBuffers h st3 True") auto
    have "buffersOk st3" using a3 by (simp add: accounted_def)
    then have "accounted st3 out4 st4" using flushToolCallBuffers_accounted [of st3 h True] f by simp
    with a123 have "accounted st ((out1 @ out2 @ out3) @ out4) st4" by (rule accounted_trans)
    then show ?thesis using True by (simp add: processDelta_def r1 r2 r3 f)
  qed
qed

lemma processLines_accounted:
  "buffersOk st \<Longrightarrow> accounted st (snd (processLines h st ls)) (fst (processLines h st ls))"
proof (induction h st ls rule: processLines.induct)
  case (1 h st)
  then show ?case by (simp add: accounted_same)
next
  case (2 h st ls)
  obtain st1 out1 err where f: "flushToolCallBuffers h st False = (st1, out1, err)"
    by (cases "flushToolCallBuffers h st False") auto
  obtain st2 out2 where p: "processLines h st1 ls = (st2, out2)"
    by (cases "processLines h st1 ls") auto
  have a1: "accounted st out1 st1" using flushToolCallBuffers_accounted [OF "2.prems", of h False] f by simp
  then have "buffersOk st1" by (simp add: accounted_def)
  then have "accounted st1 out2 st2" using "2.IH" [OF f [symmetric] refl] p by simp
  with a1 show ?case by (simp add: f p accounted_trans)
next
  case (3 h st ls)
  then show ?case by simp
next
  case (4 h st choice ls)
  obtain st1 out1 err where f: "processDelta h st choice = (st1, out1, err)"
    by (cases "processDelta h st choice") auto
  obtain st2 out2 where p: "processLines h st1 ls = (st2, out2)"
    by (cases "processLines h st1 ls") auto
  have a1: "accounted st out1 st1" using processDelta_accounted [OF "4.prems", of h choice] f by simp
  then have "buffersOk st1" by (simp add: accounted_def)
  then have "accounted st1 out2 st2" using "4.IH" [OF f [symmetric] refl] p by simp
  with a1 show ?case by (simp add: f p accounted_trans)
qed


lemma processReasoningDetail_labelled:
  "\<forall>r \<in> set (snd (processReasoningDetail h st d)). labelled r"
  by (auto simp: processReasoningDetail_def Let_def labelled_def split: prod.splits)

lemma processReasoningDetails_labelled:
  "\<forall>r \<in> set (snd (processReasoningDetails h st ds)). labelled r"
proof (induction ds arbitrary: st)
  case Nil
  then show ?case by simp
next
  case (Cons d ds)
  obtain st1 out1 where a: "processReasoningDetail h st d = (st1, out1)"
    by (cases "processReasoningDetail h st d") auto
  obtain st2 out2 where b: "processReasoningDetails h st1 ds = (st2, out2)"
    by (cases "processReasoningDetails h st1 ds") auto
  from processReasoningDetail_labelled [of h st d] a Cons.IH [of st1] b
  show ?case by (auto simp: a b)
qed

lemma processLegacyThinking_labelled:
  "\<forall>r \<in> set (snd (processLegacyThinking h st m)). labelled r"
  by (auto simp: processLegacyThinking_def Let_def labelled_def
      split: prod.splits LegacyThinking.splits option.splits)

lemma xmlThinkLoop_labelled:
  "\<forall>r \<in> set out. labelled r \<Longrightarrow>
   \<forall>r \<in> set (fst (snd (xmlThinkLoop h st data out e))). labelled r"
proof (induction h st data out e rule: xmlThinkLoop.induct)
  case (1 h st data out emittedAny)
  show ?case
  proof (cases "data = []")
    case True
    then show ?thesis using "1.prems" by (simp add: xmlThinkLoop.simps)
  next
    case False
    show ?thesis
    proof (cases "xmlThinkActive st")
      case inactive: False
      show ?thesis
      proof (cases "indexOf data THINK_START")
        case None
        then show ?thesis using False inactive "1.prems"
          by (simp add: xmlThinkLoop.simps [of h st data])
      next
        case (Some startIdx)
        from "1.IH"(1) [OF False inactive Some "1.prems"]
        show ?thesis using False inactive Some
          by (simp add: xmlThinkLoop.simps [of h st data])
      qed
    next
      case active: True
      show ?thesis
      proof (cases "indexOf data THINK_END")
        case None
        then show ?thesis using False active "1.prems"
          by (simp add: xmlThinkLoop.simps [of h st data] labelled_def)
      next
        case (Some endIdx)
        have "\<forall>r \<in> set (if take endIdx data \<noteq> [] then
                  out @ [(None, LanguageModelThinkingPart (take endIdx data)
                                  (idOrUndefined (currentThinkingId st)) None)]
                else out). labelled r"
          using "1.prems" by (simp add: labelled_def)
        from "1.IH"(2) [OF False _ Some this] active
        show ?thesis using False Some
          by (simp add: xmlThinkLoop.simps [of h st data])
      qed
    qed
  qed
qed

lemma processContent_labelled:
  "\<forall>r \<in> set (snd (processContent h st input)). labelled r"
proof -
  obtain st1 out1 e where x: "processXmlThinkBlocks h st input = (st1, out1, e)"
    by (cases "processXmlThinkBlocks h st input") auto
  have "\<forall>r \<in> set out1. labelled r"
    using x xmlThinkLoop_labelled [of "[]" h st input False]
    by (auto simp: processXmlThinkBlocks_def split: if_splits)
  then show ?thesis
    by (auto simp: processContent_def x Let_def processTextContent_def labelled_def)
qed

lemma tryEmit_labelled:
  "\<forall>r \<in> set (snd (tryEmitBufferedToolCall h st index)). labelled r"
  by (auto simp: tryEmitBufferedToolCall_def labelled_def split: option.splits prod.splits)

lemma processToolCall_labelled:
  "\<forall>r \<in> set (snd (processToolCall h st tc)). labelled r"
  using tryEmit_labelled by (auto simp: processToolCall_def Let_def)

lemma processToolCalls_labelled:
  "\<forall>r \<in> set (snd (processToolCalls h st tcs)). labelled r"
proof (induction tcs arbitrary: st)
  case Nil
  then show ?case by simp
next
  case (Cons tc tcs)
  obtain st1 out1 where a: "processToolCall h st tc = (st1, out1)"
    by (cases "processToolCall h st tc") auto
  obtain st2 out2 where b: "processToolCalls h st1 tcs = (st2, out2)"
    by (cases "processToolCalls h st1 tcs") auto
  from processToolCall_labelled [of h st tc] a Cons.IH [of st1] b
  show ?case by (auto simp: a b)
qed

lemma flushEntries_labelled:
  "\<forall>r \<in> set (fst (snd (flushEntries h t entries st))). labelled r"
proof (induction entries arbitrary: st)
  case Nil
  then show ?case by simp
next
  case (Cons e entries)
  obtain idx buf where e: "e = (idx, buf)" by (cases e) auto
  show ?case
  proof (cases "parseArguments h (args buf)")
    case None
    then show ?thesis using Cons.IH [of st] e by simp
  next
    case (Some v)
    obtain i st1 where c: "callIdOf h st buf = (i, st1)" by (cases "callIdOf h st buf") auto
    let ?st2 = "st1\<lparr> toolCallBuffers := AList.delete idx (toolCallBuffers st1),
                   completedToolCallIndices := insert idx (completedToolCallIndices st1) \<rparr>"
    obtain st3 out err where f: "flushEntries h t entries ?st2 = (st3, out, err)"
      by (cases "flushEntries h t entries ?st2") auto
    have "\<forall>r \<in> set out. labelled r" using Cons.IH [of ?st2] f by simp
    then show ?thesis using Some e c f by (simp add: labelled_def)
  qed
qed

lemma flushToolCallBuffers_labelled:
  "\<forall>r \<in> set (fst (snd (flushToolCallBuffers h st t))). labelled r"
  unfolding flushToolCallBuffers_def by (rule flushEntries_labelled)

lemma processToolCallsDelta_labelled:
  "\<forall>r \<in> set (snd (processToolCallsDelta h st tcs)). labelled r"
proof -
  let ?st1 = "if \<not> emittedBeginToolCallsHint st \<and> hasEmittedAssistantText st \<and> tcs \<noteq> []
              then st\<lparr> emittedBeginToolCallsHint := True \<rparr> else st"
  obtain st2 out where p: "processToolCalls h ?st1 tcs = (st2, out)"
    by (cases "processToolCalls h ?st1 tcs") auto
  have "\<forall>r \<in> set out. labelled r" using processToolCalls_labelled [of h ?st1 tcs] p by simp
  moreover have "labelled (None, LanguageModelTextPart '' '')" by (simp add: labelled_def)
  ultimately show ?thesis using p by (auto simp: processToolCallsDelta_def Let_def)
qed

lemma processDelta_labelled:
  "\<forall>r \<in> set (fst (snd (processDelta h st choice))). labelled r"
proof -
  let ?r1 = "if reasoningDetails choice \<noteq> []
            then processReasoningDetails h st (sortDetails (reasoningDetails choice))
            else (case legacyThinking choice of
                    None \<Rightarrow> (st, [])
                  | Some maybeThinking \<Rightarrow> processLegacyThinking h st maybeThinking)"
  obtain st1 out1 where r1: "?r1 = (st1, out1)" by (cases ?r1) auto
  have l1: "\<forall>r \<in> set out1. labelled r"
  proof (cases "reasoningDetails choice \<noteq> []")
    case True
    then show ?thesis
      using r1 processReasoningDetails_labelled [of h st "sortDetails (reasoningDetails choice)"]
      by simp
  next
    case False
    show ?thesis
    proof (cases "legacyThinking choice")
      case None
      then show ?thesis using False r1 by auto
    next
      case (Some m)
      then show ?thesis using False r1 processLegacyThinking_labelled [of h st m] by simp
    qed
  qed
  let ?r2 = "if truthy (deltaContent choice)
                 then processContent h st1 (the (deltaContent choice))
                 else (st1, [])"
  obtain st2 out2 where r2: "?r2 = (st2, out2)" by (cases ?r2) auto
  have l2: "\<forall>r \<in> set out2. labelled r"
    using r2 processContent_labelled [of h st1 "the (deltaContent choice)"]
    by (auto split: if_splits)
  let ?r3 = "case toolCalls choice of
                        None \<Rightarrow> (st2, [])
                      | Some tcs \<Rightarrow> processToolCallsDelta h st2 tcs"
  obtain st3 out3 where r3: "?r3 = (st3, out3)" by (cases ?r3) auto
  have l3: "\<forall>r \<in> set out3. labelled r"
  proof (cases "toolCalls choice")
    case None
    then show ?thesis using r3 by auto
  next
    case (Some tcs)
    then show ?thesis using r3 processToolCallsDelta_labelled [of h st2 tcs] by simp
  qed
  show ?thesis
  proof (cases "finishReason choice = Some ''tool_calls'' \<or> finishReason choice = Some ''stop''")
    case False
    then show ?thesis using l1 l2 l3 by (auto simp: processDelta_def r1 r2 r3)
  next
    case True
    obtain st4 out4 err where f: "flushToolCallBuffers h st3 True = (st4, out4, err)"
      by (cases "flushToolCallBuffers h st3 True") auto
    have "\<forall>r \<in> set out4. labelled r" using flushToolCallBuffers_labelled [of h st3 True] f by simp
    then show ?thesis using True l1 l2 l3 by (auto simp: processDelta_def r1 r2 r3 f)
  qed
qed

lemma processLines_labelled:
  "\<forall>r \<in> set (snd (processLines h st ls)). labelled r"
proof (induction h st ls rule: processLines.induct)
  case (1 h st)
  then show ?case by simp
next
  case (2 h st ls)
  obtain st1 out1 err where f: "flushToolCallBuffers h st False = (st1, out1, err)"
    by (cases "flushToolCallBuffers h st False") auto
  obtain st2 out2 where p: "processLines h st1 ls = (st2, out2)"
    by (cases "processLines h st1 ls") auto
  have "\<forall>r \<in> set out1. labelled r" using flushToolCallBuffers_labelled [of h st False] f by simp
  moreover have "\<forall>r \<in> set out2. labelled r" using "2.IH" [OF f [symmetric] refl] p by simp
  ultimately show ?case by (auto simp: f p)
next
  case (3 h st ls)
  then show ?case by simp
next
  case (4 h st choice ls)
  obtain st1 out1 err where f: "processDelta h st choice = (st1, out1, err)"
    by (cases "processDelta h st choice") auto
  obtain st2 out2 where p: "processLines h st1 ls = (st2, out2)"
    by (cases "processLines h st1 ls") auto
  have "\<forall>r \<in> set out1. labelled r" using processDelta_labelled [of h st choice] f by simp
  moreover have "\<forall>r \<in> set out2. labelled r" using "4.IH" [OF f [symmetric] refl] p by simp
  ultimately show ?case by (auto simp: f p)
qed

lemma flushEntries_reports:
  "\<forall>r \<in> set (fst (snd (flushEntries h t entries st))).
     \<exists>idx buf v i. (idx, buf) \<in> set entries \<and> parseArguments h (args buf) = Some v
       \<and> r = (Some idx, LanguageModelToolCallPart (finalIdOf i buf)
                 (case bufName buf of Some n \<Rightarrow> n | None \<Rightarrow> ''unknown_tool'') v)"
proof (induction entries arbitrary: st)
  case Nil
  then show ?case by simp
next
  case (Cons e entries)
  obtain idx buf where e: "e = (idx, buf)" by (cases e) auto
  show ?case
  proof (cases "parseArguments h (args buf)")
    case None
    then show ?thesis using Cons.IH [of st] e by (cases t) fastforce+
  next
    case (Some v)
    obtain i st1 where c: "callIdOf h st buf = (i, st1)" by (cases "callIdOf h st buf") auto
    let ?st2 = "st1\<lparr> toolCallBuffers := AList.delete idx (toolCallBuffers st1),
                   completedToolCallIndices := insert idx (completedToolCallIndices st1) \<rparr>"
    obtain st3 out err where f: "flushEntries h t entries ?st2 = (st3, out, err)"
      by (cases "flushEntries h t entries ?st2") auto
    have ih: "\<forall>r \<in> set out.
     \<exists>idx buf v i. (idx, buf) \<in> set entries \<and> parseArguments h (args buf) = Some v
       \<and> r = (Some idx, LanguageModelToolCallPart (finalIdOf i buf)
                 (case bufName buf of Some n \<Rightarrow> n | None \<Rightarrow> ''unknown_tool'') v)"
      using Cons.IH [of ?st2] f by simp
    show ?thesis
    proof
      fix r assume "r \<in> set (fst (snd (flushEntries h t (e # entries) st)))"
      then have "r = (Some idx, LanguageModelToolCallPart (finalIdOf i buf)
                 (case bufName buf of Some n \<Rightarrow> n | None \<Rightarrow> ''unknown_tool'') v) \<or> r \<in> set out"
        using Some e c f by simp
      then show "\<exists>idx buf v i. (idx, buf) \<in> set (e # entries) \<and> parseArguments h (args buf) = Some v
       \<and> r = (Some idx, LanguageModelToolCallPart (finalIdOf i buf)
                 (case bufName buf of Some n \<Rightarrow> n | None \<Rightarrow> ''unknown_tool'') v)"
      proof
        assume "r = (Some idx, LanguageModelToolCallPart (finalIdOf i buf)
                 (case bufName buf of Some n \<Rightarrow> n | None \<Rightarrow> ''unknown_tool'') v)"
        then show ?thesis using Some e by auto
      next
        assume "r \<in> set out"
        with ih obtain idx' buf' v' i' where "(idx', buf') \<in> set entries"
          "parseArguments h (args buf') = Some v'"
          "r = (Some idx', LanguageModelToolCallPart (finalIdOf i' buf')
                 (case bufName buf' of Some n \<Rightarrow> n | None \<Rightarrow> ''unknown_tool'') v')"
          by blast
        then show ?thesis by auto
      qed
    qed
  qed
qed

lemma callIdOf_buffers: "toolCallBuffers (snd (callIdOf h st buf)) = toolCallBuffers st"
  by (simp add: callIdOf_def split: option.splits)

lemma parses_entry: "parses h (idx, buf) = (parseArguments h (args buf) \<noteq> None)"
  by (simp add: parses_def)

lemma flushEntries_lenient:
  "snd (snd (flushEntries h False entries st)) = None
   \<and> map fst (fst (snd (flushEntries h False entries st)))
       = map (\<lambda>e. Some (fst e)) (filter (parses h) entries)
   \<and> toolCallBuffers (fst (flushEntries h False entries st))
       = filter (\<lambda>e. fst e \<notin> fst ` set (filter (parses h) entries)) (toolCallBuffers st)"
proof (induction entries arbitrary: st)
  case Nil
  then show ?case by simp
next
  case (Cons e entries)
  obtain idx buf where e: "e = (idx, buf)" by (cases e) auto
  show ?case
  proof (cases "parseArguments h (args buf)")
    case None
    then show ?thesis using Cons.IH [of st] e by (simp add: parses_entry)
  next
    case (Some v)
    obtain i st1 where c: "callIdOf h st buf = (i, st1)" by (cases "callIdOf h st buf") auto
    have b1: "toolCallBuffers st1 = toolCallBuffers st" using callIdOf_buffers [of h st buf] c by simp
    let ?st2 = "st1\<lparr> toolCallBuffers := AList.delete idx (toolCallBuffers st1),
                   completedToolCallIndices := insert idx (completedToolCallIndices st1) \<rparr>"
    obtain st3 out err where f: "flushEntries h False entries ?st2 = (st3, out, err)"
      by (cases "flushEntries h False entries ?st2") auto
    have ih: "err = None" "map fst out = map (\<lambda>e. Some (fst e)) (filter (parses h) entries)"
      "toolCallBuffers st3 = filter (\<lambda>e. fst e \<notin> fst ` set (filter (parses h) entries))
          (AList.delete idx (toolCallBuffers st))"
      using Cons.IH [of ?st2] f b1 by simp_all
    have "filter (\<lambda>e. fst e \<notin> fst ` set (filter (parses h) entries))
          (AList.delete idx (toolCallBuffers st))
        = filter (\<lambda>e. fst e \<notin> fst ` set (filter (parses h) ((idx, buf) # entries)))
          (toolCallBuffers st)"
      using Some by (auto simp: AList.delete_eq parses_entry intro!: filter_cong)
    then show ?thesis using Some e c f ih by (simp add: parses_entry)
  qed
qed

lemma flushEntries_strict:
  "snd (snd (flushEntries h True entries st))
       = (if list_all (parses h) entries then None else Some InvalidToolCallJSON)
   \<and> map fst (fst (snd (flushEntries h True entries st)))
       = map (\<lambda>e. Some (fst e)) (takeWhile (parses h) entries)
   \<and> toolCallBuffers (fst (flushEntries h True entries st))
       = filter (\<lambda>e. fst e \<notin> fst ` set (takeWhile (parses h) entries)) (toolCallBuffers st)"
proof (induction entries arbitrary: st)
  case Nil
  then show ?case by simp
next
  case (Cons e entries)
  obtain idx buf where e: "e = (idx, buf)" by (cases e) auto
  show ?case
  proof (cases "parseArguments h (args buf)")
    case None
    then show ?thesis using e by (simp add: parses_entry)
  next
    case (Some v)
    obtain i st1 where c: "callIdOf h st buf = (i, st1)" by (cases "callIdOf h st buf") auto
    have b1: "toolCallBuffers st1 = toolCallBuffers st" using callIdOf_buffers [of h st buf] c by simp
    let ?st2 = "st1\<lparr> toolCallBuffers := AList.delete idx (toolCallBuffers st1),
                   completedToolCallIndices := insert idx (completedToolCallIndices st1) \<rparr>"
    obtain st3 out err where f: "flushEntries h True entries ?st2 = (st3, out, err)"
      by (cases "flushEntries h True entries ?st2") auto
    have ih: "err = (if list_all (parses h) entries then None else Some InvalidToolCallJSON)"
      "map fst out = map (\<lambda>e. Some (fst e)) (takeWhile (parses h) entries)"
      "toolCallBuffers st3 = filter (\<lambda>e. fst e \<notin> fst ` set (takeWhile (parses h) entries))
          (AList.delete idx (toolCallBuffers st))"
      using Cons.IH [of ?st2] f b1 by simp_all
    have "filter (\<lambda>e. fst e \<notin> fst ` set (takeWhile (parses h) entries))
          (AList.delete idx (toolCallBuffers st))
        = filter (\<lambda>e. fst e \<notin> fst ` set (takeWhile (parses h) ((idx, buf) # entries)))
          (toolCallBuffers st)"
      using Some by (auto simp: AList.delete_eq parses_entry intro!: filter_cong)
    then show ?thesis using Some e c f ih by (simp add: parses_entry)
  qed
qed

lemma distinct_keys_filter:
  assumes "distinct (map fst xs)"
  shows "filter (\<lambda>e. fst e \<notin> fst ` set (filter P xs)) xs = filter (\<lambda>e. \<not> P e) xs"
proof (rule filter_cong [OF refl])
  fix e assume e: "e \<in> set xs"
  show "(fst e \<notin> fst ` set (filter P xs)) = (\<not> P e)"
  proof
    assume "fst e \<notin> fst ` set (filter P xs)"
    then show "\<not> P e" using e by force
  next
    assume np: "\<not> P e"
    show "fst e \<notin> fst ` set (filter P xs)"
    proof
      assume "fst e \<in> fst ` set (filter P xs)"
      then obtain e' where e': "e' \<in> set xs" "P e'" "fst e' = fst e" by auto
      then have "e' = e" using assms e by (metis eq_key_imp_eq_value prod.collapse)
      with e'(2) np show False by simp
    qed
  qed
qed

lemma distinct_keys_takeWhile:
  assumes "distinct (map fst xs)"
  shows "filter (\<lambda>e. fst e \<notin> fst ` set (takeWhile P xs)) xs = dropWhile P xs"
  using assms
proof (induction xs)
  case Nil
  then show ?case by simp
next
  case (Cons x xs)
  show ?case
  proof (cases "P x")
    case False
    then show ?thesis by simp
  next
    case True
    have "fst x \<notin> fst ` set xs" using Cons.prems by simp
    then have nk: "\<forall>e \<in> set xs. fst e \<noteq> fst x" by (metis imageI)
    have "filter (\<lambda>e. fst e \<notin> fst ` set (takeWhile P (x # xs))) xs
        = filter (\<lambda>e. fst e \<notin> fst ` set (takeWhile P xs)) xs"
      using True nk by (auto intro!: filter_cong)
    then show ?thesis using True Cons by simp
  qed
qed


lemmas providerC_tools_eval = processToolCallsC.simps processToolCallC_def
  tryEmitBufferedToolCallC_def flushToolCallBuffersC_def flushKeysC.simps toolCallDeltaC_def
  finishDeltaC_def flushReasoningBuffer_def

section \<open>Facts about the variant with reasoning coalescing\<close>

lemma detailSignature_signed:
  assumes "rdType detail = ''reasoning.text''" "rdSignature detail = Some sg" "sg \<noteq> []"
  shows "detailSignature detail = Some sg" "detailText detail = rdText detail" "isSimpleText detail"
  using assms by (simp_all add: detailSignature_def detailText_def isSimpleText_def truthy_def)


lemma plainReasoning_simps:
  "isSimpleText (plainReasoning t)" "detailSignature (plainReasoning t) = None"
  "detailText (plainReasoning t) = t"
  by (simp_all add: plainReasoning_def isSimpleText_def detailSignature_def detailText_def truthy_def)

lemma sortDetails_single: "sortDetails [d] = [d]"
  by (simp add: sortDetails_def)

lemma processDeltaC_reasoning:
  "processDeltaC h st (emptyChoiceC\<lparr> reasoningDetailsC := [d] \<rparr>) = processReasoningDetailC h st d"
  by (simp add: processDeltaC_def emptyChoiceC_def sortDetails_single truthy_def split: prod.splits)

lemma plain_buffered:
  assumes "length (reasoningTextBuffer st) + length t \<le> 4000"
  shows "processReasoningDetailC h st (plainReasoning t)
           = (st\<lparr> reasoningTextBuffer := reasoningTextBuffer st @ t \<rparr>, [])"
  using assms by (simp add: processReasoningDetailC_def plainReasoning_simps Let_def)

lemma plain_flushed:
  assumes "length (reasoningTextBuffer st) + length t > 4000"
  shows "processReasoningDetailC h st (plainReasoning t)
           = flushReasoningBuffer h (st\<lparr> reasoningTextBuffer := reasoningTextBuffer st @ t \<rparr>)"
  using assms by (simp add: processReasoningDetailC_def plainReasoning_simps Let_def)

lemma processLinesC_append_plain:
  assumes "length (reasoningTextBuffer st) + n * length t \<le> 4000"
  shows "processLinesC h st (replicate n (reasoningDeltaC (plainReasoning t)) @ rest)
       = processLinesC h (st\<lparr> reasoningTextBuffer := reasoningTextBuffer st @ concat (replicate n t) \<rparr>) rest"
  using assms
proof (induction n arbitrary: st)
  case 0
  then show ?case by simp
next
  case (Suc n)
  have l: "length (reasoningTextBuffer st) + length t \<le> 4000" using Suc.prems by simp
  let ?st1 = "st\<lparr> reasoningTextBuffer := reasoningTextBuffer st @ t \<rparr>"
  have "length (reasoningTextBuffer ?st1) + n * length t \<le> 4000" using Suc.prems by simp
  from Suc.IH [OF this] plain_buffered [OF l, of h]
  show ?case by (simp add: reasoningDeltaC_def processDeltaC_reasoning)
qed

lemma concat_replicate_Suc: "concat (replicate (Suc n) t) = concat (replicate n t) @ t"
  by (induction n) auto

lemma length_concat_replicate: "length (concat (replicate n t)) = n * length t"
  by (induction n) auto

lemma unsigned_simps:
  assumes "rdType d = ''reasoning.text''" "\<not> truthy (rdSignature d)"
  shows "isSimpleText d" "detailSignature d = None" "detailText d = rdText d"
  using assms by (simp_all add: isSimpleText_def detailSignature_def detailText_def)

lemma ensureThinkingIdC_buffer:
  "fst (ensureThinkingIdC h (st\<lparr> reasoningTextBuffer := b \<rparr>)) = fst (ensureThinkingIdC h st)"
  "snd (ensureThinkingIdC h (st\<lparr> reasoningTextBuffer := b \<rparr>))
     = (snd (ensureThinkingIdC h st))\<lparr> reasoningTextBuffer := b \<rparr>"
  "reasoningTextBuffer (snd (ensureThinkingIdC h st)) = reasoningTextBuffer st"
  by (simp_all add: ensureThinkingIdC_def)

lemma flushReasoningBuffer_nonempty:
  assumes "reasoningTextBuffer st \<noteq> []"
  shows "flushReasoningBuffer h st
    = ((snd (ensureThinkingIdC h st))\<lparr> reasoningTextBuffer := [] \<rparr>,
       [LanguageModelThinkingPart (reasoningTextBuffer st) (Some (fst (ensureThinkingIdC h st)))
          (Some coalescedMetadata)])"
  using assms by (simp add: flushReasoningBuffer_def split: prod.splits)

lemma unsigned_buffered:
  assumes "rdType d = ''reasoning.text''" "\<not> truthy (rdSignature d)"
    and "length (reasoningTextBuffer st) + length (rdText d) \<le> 4000"
  shows "processReasoningDetailC h st d
           = (st\<lparr> reasoningTextBuffer := reasoningTextBuffer st @ rdText d \<rparr>, [])"
  using assms(3) by (simp add: processReasoningDetailC_def unsigned_simps [OF assms(1,2)] Let_def)

lemma unsigned_flushed:
  assumes "rdType d = ''reasoning.text''" "\<not> truthy (rdSignature d)"
    and "length (reasoningTextBuffer st) + length (rdText d) > 4000"
  shows "processReasoningDetailC h st d
           = ((snd (ensureThinkingIdC h st))\<lparr> reasoningTextBuffer := [] \<rparr>,
              [LanguageModelThinkingPart (reasoningTextBuffer st @ rdText d)
                 (Some (fst (ensureThinkingIdC h st))) (Some coalescedMetadata)])"
proof -
  let ?st1 = "st\<lparr> reasoningTextBuffer := reasoningTextBuffer st @ rdText d \<rparr>"
  have ne: "reasoningTextBuffer ?st1 \<noteq> []" using assms(3) by auto
  have "processReasoningDetailC h st d = flushReasoningBuffer h ?st1"
    using assms(3) by (simp add: processReasoningDetailC_def unsigned_simps [OF assms(1,2)] Let_def)
  then show ?thesis
    unfolding flushReasoningBuffer_nonempty [OF ne] by (simp add: ensureThinkingIdC_buffer)
qed

lemma other_segment_flushes:
  assumes "reasoningTextBuffer st \<noteq> []"
    and "\<not> (rdType e = ''reasoning.text'' \<and> \<not> truthy (rdSignature e))"
  shows "\<exists>j. snd (processReasoningDetailC h st e)
      = LanguageModelThinkingPart (reasoningTextBuffer st) (Some (fst (ensureThinkingIdC h st)))
          (Some coalescedMetadata)
        # (if detailText e \<noteq> [] \<or> detailSignature e \<noteq> None
           then [LanguageModelThinkingPart (detailText e) (Some j)
                   (Some \<lparr> mdFormat = rdFormat e, mdType = Some (rdType e), mdIndex = rdIndex e,
                            mdSignature = detailSignature e, mdData = None \<rparr>)]
           else [])"
    and "reasoningTextBuffer (fst (processReasoningDetailC h st e)) = []"
proof -
  have n: "\<not> (isSimpleText e \<and> detailSignature e = None)"
    using assms(2) by (auto simp: isSimpleText_def detailSignature_def truthy_def split: option.splits)
  show "\<exists>j. snd (processReasoningDetailC h st e)
      = LanguageModelThinkingPart (reasoningTextBuffer st) (Some (fst (ensureThinkingIdC h st)))
          (Some coalescedMetadata)
        # (if detailText e \<noteq> [] \<or> detailSignature e \<noteq> None
           then [LanguageModelThinkingPart (detailText e) (Some j)
                   (Some \<lparr> mdFormat = rdFormat e, mdType = Some (rdType e), mdIndex = rdIndex e,
                            mdSignature = detailSignature e, mdData = None \<rparr>)]
           else [])"
    using n assms(1)
    by (auto simp: processReasoningDetailC_def flushReasoningBuffer_nonempty split: prod.splits)
  show "reasoningTextBuffer (fst (processReasoningDetailC h st e)) = []"
    using n assms(1)
    by (auto simp: processReasoningDetailC_def flushReasoningBuffer_nonempty ensureThinkingIdC_buffer
        ensureThinkingIdC_def split: prod.splits)
qed

lemma tryEmitBufferedToolCallC_keeps:
  "reasoningTextBuffer (fst (tryEmitBufferedToolCallC h st key isLast)) = reasoningTextBuffer st"
  "currentThinkingIdC (fst (tryEmitBufferedToolCallC h st key isLast)) = currentThinkingIdC st"
  "randomDrawsC (fst (tryEmitBufferedToolCallC h st key isLast)) = randomDrawsC st"
  by (simp_all add: tryEmitBufferedToolCallC_def Let_def split: option.splits)

lemma flushKeysC_keeps:
  "reasoningTextBuffer (fst (flushKeysC h keys st)) = reasoningTextBuffer st
   \<and> currentThinkingIdC (fst (flushKeysC h keys st)) = currentThinkingIdC st
   \<and> randomDrawsC (fst (flushKeysC h keys st)) = randomDrawsC st"
proof (induction keys arbitrary: st)
  case Nil
  then show ?case by simp
next
  case (Cons key keys)
  obtain st1 out1 where t: "tryEmitBufferedToolCallC h st key True = (st1, out1)"
    by (cases "tryEmitBufferedToolCallC h st key True") auto
  obtain st2 out2 where f: "flushKeysC h keys st1 = (st2, out2)"
    by (cases "flushKeysC h keys st1") auto
  show ?case
    using Cons.IH [of st1] tryEmitBufferedToolCallC_keeps [of h st key True] t f by simp
qed

lemma flushToolCallBuffersC_keeps:
  "reasoningTextBuffer (fst (flushToolCallBuffersC h st)) = reasoningTextBuffer st"
  "currentThinkingIdC (fst (flushToolCallBuffersC h st)) = currentThinkingIdC st"
  "randomDrawsC (fst (flushToolCallBuffersC h st)) = randomDrawsC st"
  using flushKeysC_keeps [of h "map fst (toolCallBuffersC st)" st]
  by (simp_all add: flushToolCallBuffersC_def)

lemma ensureThinkingIdC_cong:
  assumes "currentThinkingIdC st' = currentThinkingIdC st" "randomDrawsC st' = randomDrawsC st"
  shows "fst (ensureThinkingIdC h st') = fst (ensureThinkingIdC h st)"
    "truthy (currentThinkingIdC (snd (ensureThinkingIdC h st'))) = (fst (ensureThinkingIdC h st) \<noteq> [])"
    "currentThinkingIdC (snd (ensureThinkingIdC h st')) = Some (fst (ensureThinkingIdC h st))"
  using assms by (auto simp: ensureThinkingIdC_def truthy_def split: option.splits)

lemma done_flushes:
  assumes "reasoningTextBuffer st \<noteq> []"
  shows "snd (processLinesC h st (DoneLineC # ls))
     = snd (flushToolCallBuffersC h st)
       @ LanguageModelThinkingPart (reasoningTextBuffer st) (Some (fst (ensureThinkingIdC h st)))
           (Some coalescedMetadata)
       # (if fst (ensureThinkingIdC h st) \<noteq> []
          then [LanguageModelThinkingPart [] (Some (fst (ensureThinkingIdC h st))) None] else [])"
proof -
  obtain st1 out1 where f: "flushToolCallBuffersC h st = (st1, out1)"
    by (cases "flushToolCallBuffersC h st") auto
  have k: "reasoningTextBuffer st1 = reasoningTextBuffer st"
    "currentThinkingIdC st1 = currentThinkingIdC st" "randomDrawsC st1 = randomDrawsC st"
    using flushToolCallBuffersC_keeps [of h st] f by simp_all
  have ne: "reasoningTextBuffer st1 \<noteq> []" using assms k by simp
  note e = ensureThinkingIdC_cong [OF k(2,3), of h]
  show ?thesis
    using f k(1) e
    by (simp add: flushReasoningBuffer_nonempty [OF ne] closeActiveThinking_def)
qed


lemma processLinesC_unsigned:
  assumes "\<forall>d \<in> set ds. rdType d = ''reasoning.text'' \<and> \<not> truthy (rdSignature d)"
    and "length (reasoningTextBuffer st) + length (concat (map rdText ds)) \<le> 4000"
  shows "processLinesC h st (map reasoningDeltaC ds @ rest)
       = processLinesC h (st\<lparr> reasoningTextBuffer := reasoningTextBuffer st @ concat (map rdText ds) \<rparr>) rest"
  using assms
proof (induction ds arbitrary: st)
  case Nil
  then show ?case by simp
next
  case (Cons d ds)
  have p: "rdType d = ''reasoning.text''" "\<not> truthy (rdSignature d)" using Cons.prems(1) by simp_all
  have l: "length (reasoningTextBuffer st) + length (rdText d) \<le> 4000" using Cons.prems(2) by simp
  let ?st1 = "st\<lparr> reasoningTextBuffer := reasoningTextBuffer st @ rdText d \<rparr>"
  have a: "\<forall>d \<in> set ds. rdType d = ''reasoning.text'' \<and> \<not> truthy (rdSignature d)"
    using Cons.prems(1) by simp
  have b: "length (reasoningTextBuffer ?st1) + length (concat (map rdText ds)) \<le> 4000"
    using Cons.prems(2) by simp
  from Cons.IH [OF a b] unsigned_buffered [OF p l, of h]
  show ?case by (simp add: reasoningDeltaC_def processDeltaC_reasoning)
qed

lemma length_concat_texts:
  "\<forall>d \<in> set ds. length (rdText d) = n \<Longrightarrow> length (concat (map rdText ds)) = n * length ds"
  by (induction ds) auto

section \<open>Claims about the sentinel-token parser\<close>

text \<open>
  Claim C2, as the code has it. \<^verbatim>\<open>findPartialMatch(S, T)\<close> is the largest \<open>k\<close>, at most
  \<open>length T - 1\<close> and at most \<open>length S\<close>, such that the last \<open>k\<close> characters of \<open>S\<close> are
  the first \<open>k\<close> characters of \<open>T\<close>. In each state \<^verbatim>\<open>processChunk\<close> applies it to the one
  sentinel that state waits for, when the buffered text does not hold that sentinel: outside
  a tool section it emits the text but its last \<open>k\<close> characters, for the section-begin
  sentinel, as content; inside a call it appends the text but its last \<open>k\<close> characters to the
  name, for the argument-begin sentinel, or to the arguments, for the call-end sentinel; in
  each case exactly the last \<open>k\<close> characters stay in the buffer. Inside a section and outside
  a call it keeps the whole text and emits nothing. \<^verbatim>\<open>flush\<close> emits whatever the buffer
  holds, in every state, as content. For every way of cutting an input into chunks: no content
  result of \<^verbatim>\<open>processChunk\<close> contains the section-begin sentinel, and none of \<^verbatim>\<open>flush\<close>
  either when the input holds no section-begin sentinel; and the parser ends in the
  same state and has emitted the same characters and tool calls, in the same order, as for
  the input given in one chunk, also after \<^verbatim>\<open>flush\<close>. A sentinel cut by chunk boundaries is
  therefore recognised like an uncut one, and chunking changes only how the content is
  divided into results.
\<close>

theorem sentinel_retention_and_chunking:
  "(let k = findPartialMatch S T in
      k \<le> length T - 1 \<and> k \<le> length S \<and> drop (length S - k) S = take k T
      \<and> (\<forall>j. k < j \<and> j \<le> length S \<and> j \<le> length T - 1
              \<longrightarrow> drop (length S - j) S \<noteq> take j T))
   \<and> (\<not> inToolSection p \<and> \<not> includesStr (buffer p @ chunk) SECTION_BEGIN \<longrightarrow>
        processChunk p chunk =
          (let B = buffer p @ chunk; k = findPartialMatch B SECTION_BEGIN in
           (p\<lparr> buffer := drop (length B - k) B \<rparr>,
            (if k < length B then [Thinking (take (length B - k) B)] else []))))
   \<and> (inToolSection p \<and> \<not> inToolCall p \<and> \<not> includesStr (buffer p @ chunk) CALL_BEGIN \<longrightarrow>
        processChunk p chunk = (p\<lparr> buffer := buffer p @ chunk \<rparr>, []))
   \<and> (inToolSection p \<and> inToolCall p \<and> \<not> inArguments p
         \<and> \<not> includesStr (buffer p @ chunk) ARG_BEGIN \<longrightarrow>
        processChunk p chunk =
          (let B = buffer p @ chunk; k = findPartialMatch B ARG_BEGIN in
           (p\<lparr> currentToolName := currentToolName p @ take (length B - k) B,
               buffer := drop (length B - k) B \<rparr>, [])))
   \<and> (inToolSection p \<and> inToolCall p \<and> inArguments p
         \<and> \<not> includesStr (buffer p @ chunk) CALL_END \<longrightarrow>
        processChunk p chunk =
          (let B = buffer p @ chunk; k = findPartialMatch B CALL_END in
           (p\<lparr> currentToolArgs := currentToolArgs p @ take (length B - k) B,
               buffer := drop (length B - k) B \<rparr>, [])))
   \<and> flush p = (p\<lparr> buffer := [] \<rparr>, (if buffer p = [] then [] else [Thinking (buffer p)]))
   \<and> (\<forall>s. Thinking s \<in> set (snd (feed q chunks)) \<longrightarrow> \<not> includesStr s SECTION_BEGIN)
   \<and> (\<not> includesStr (concat chunks) SECTION_BEGIN \<longrightarrow>
        (\<forall>s. Thinking s \<in> set (parseStream chunks) \<longrightarrow> \<not> includesStr s SECTION_BEGIN))
   \<and> fst (feed newParser chunks) = fst (feed newParser [concat chunks])
   \<and> trace (snd (feed newParser chunks)) = trace (snd (feed newParser [concat chunks]))
   \<and> trace (parseStream chunks) = trace (parseStream [concat chunks])"
proof -
  have a: "let k = findPartialMatch S T in
      k \<le> length T - 1 \<and> k \<le> length S \<and> drop (length S - k) S = take k T
      \<and> (\<forall>j. k < j \<and> j \<le> length S \<and> j \<le> length T - 1
              \<longrightarrow> drop (length S - j) S \<noteq> take j T)"
    using findPartialMatch_le_token [of S T] findPartialMatch_le_text [of S T]
      findPartialMatch_match [of S T] findPartialMatch_greatest [of S T]
    by (simp add: Let_def)
  have b: "\<not> inToolSection p \<and> \<not> includesStr (buffer p @ chunk) SECTION_BEGIN \<longrightarrow>
        processChunk p chunk =
          (let B = buffer p @ chunk; k = findPartialMatch B SECTION_BEGIN in
           (p\<lparr> buffer := drop (length B - k) B \<rparr>,
            (if k < length B then [Thinking (take (length B - k) B)] else [])))"
    using processChunk_scanning_pending by blast
  have b1: "inToolSection p \<and> \<not> inToolCall p \<and> \<not> includesStr (buffer p @ chunk) CALL_BEGIN \<longrightarrow>
        processChunk p chunk = (p\<lparr> buffer := buffer p @ chunk \<rparr>, [])"
    using processChunk_section_pending by blast
  have b2: "inToolSection p \<and> inToolCall p \<and> \<not> inArguments p
         \<and> \<not> includesStr (buffer p @ chunk) ARG_BEGIN \<longrightarrow>
        processChunk p chunk =
          (let B = buffer p @ chunk; k = findPartialMatch B ARG_BEGIN in
           (p\<lparr> currentToolName := currentToolName p @ take (length B - k) B,
               buffer := drop (length B - k) B \<rparr>, []))"
    using processChunk_name_pending by blast
  have b3: "inToolSection p \<and> inToolCall p \<and> inArguments p
         \<and> \<not> includesStr (buffer p @ chunk) CALL_END \<longrightarrow>
        processChunk p chunk =
          (let B = buffer p @ chunk; k = findPartialMatch B CALL_END in
           (p\<lparr> currentToolArgs := currentToolArgs p @ take (length B - k) B,
               buffer := drop (length B - k) B \<rparr>, []))"
    using processChunk_args_pending by blast
  have f: "flush p = (p\<lparr> buffer := [] \<rparr>, (if buffer p = [] then [] else [Thinking (buffer p)]))"
  proof (cases "buffer p = []")
    case True
    then have "p\<lparr> buffer := [] \<rparr> = p" by (cases p) simp
    then show ?thesis using True by (simp add: flush_def)
  next
    case False
    then show ?thesis by (simp add: flush_def)
  qed
  have c: "\<forall>s. Thinking s \<in> set (snd (feed q chunks)) \<longrightarrow> \<not> includesStr s SECTION_BEGIN"
    using feed_no_sentinel by blast
  have d: "fst (feed newParser chunks) = fst (feed newParser [concat chunks])"
    "trace (snd (feed newParser chunks)) = trace (snd (feed newParser [concat chunks]))"
    using feed_newParser_concat [of chunks] by blast+
  have e: "\<not> includesStr (concat chunks) SECTION_BEGIN \<longrightarrow>
        (\<forall>s. Thinking s \<in> set (parseStream chunks) \<longrightarrow> \<not> includesStr s SECTION_BEGIN)"
    using parseStream_no_sentinel by blast
  show ?thesis
    by (intro conjI a b b1 b2 b3 f c e d parseStream_concat)
qed


theorem sentinel_retention_and_chunking_witness:
  \<open>findPartialMatch ''Hello <|tool'' SECTION_BEGIN = 6
   \<and> drop (length ''Hello <|tool'' - 7) ''Hello <|tool'' \<noteq> take 7 SECTION_BEGIN
   \<and> processChunk newParser ''Hello <|tool''
       = (newParser\<lparr> buffer := ''<|tool'' \<rparr>, [Thinking ''Hello ''])
   \<and> processChunk (newParser\<lparr> inToolSection := True \<rparr>) '' <|tool_call_be''
       = (newParser\<lparr> inToolSection := True, buffer := '' <|tool_call_be'' \<rparr>, [])
   \<and> processChunk (newParser\<lparr> inToolSection := True, inToolCall := True \<rparr>)
         ''get_weather<|tool_call_arg''
       = (newParser\<lparr> inToolSection := True, inToolCall := True,
            currentToolName := ''get_weather'', buffer := ''<|tool_call_arg'' \<rparr>, [])
   \<and> processChunk (newParser\<lparr> inToolSection := True, inToolCall := True, inArguments := True,
                               currentToolName := ''get_weather'' \<rparr>) ''{"city":"SF"}<|tool_call_e''
       = (newParser\<lparr> inToolSection := True, inToolCall := True, inArguments := True,
            currentToolName := ''get_weather'', currentToolArgs := ''{"city":"SF"}'',
            buffer := ''<|tool_call_e'' \<rparr>, [])
   \<and> flush (newParser\<lparr> buffer := ''<|tool'' \<rparr>) = (newParser, [Thinking ''<|tool''])
   \<and> Thinking ''Hello '' \<in> set (snd (feed newParser [''Hello <|tool'']))
   \<and> \<not> includesStr ''Hello '' SECTION_BEGIN
   \<and> Thinking ''<|tool'' \<in> set (parseStream [''Hello <|tool''])
   \<and> \<not> includesStr ''<|tool'' SECTION_BEGIN
   \<and> trace (parseStream [''<|tool_calls_section_begin|><|tool_call_'',
                          ''begin|>get_weather<|tool_call_argument_begin|>{"city":"SF'',
                          ''"}<|tool_call_end|>''])
       = [ToolCall ''get_weather'' ''{"city":"SF"}'']\<close>
proof -
  let ?chunks = \<open>[''<|tool_calls_section_begin|><|tool_call_'',
        ''begin|>get_weather<|tool_call_argument_begin|>{"city":"SF'',
        ''"}<|tool_call_end|>'']\<close>
  let ?ps = "newParser\<lparr> inToolSection := True \<rparr>"
  let ?pn = "newParser\<lparr> inToolSection := True, inToolCall := True \<rparr>"
  let ?pa = "newParser\<lparr> inToolSection := True, inToolCall := True, inArguments := True,
                               currentToolName := ''get_weather'' \<rparr>"
  note t = sentinel_retention_and_chunking [where S = "''Hello <|tool''" and T = SECTION_BEGIN
      and p = newParser and chunk = "''Hello <|tool''" and q = newParser
      and chunks = ?chunks]
  note ts = sentinel_retention_and_chunking [where S = "''Hello <|tool''" and T = SECTION_BEGIN
      and p = ?ps and chunk = "'' <|tool_call_be''" and q = newParser
      and chunks = "[''Hello <|tool'']"]
  note tn = sentinel_retention_and_chunking [where S = "''Hello <|tool''" and T = SECTION_BEGIN
      and p = ?pn and chunk = "''get_weather<|tool_call_arg''" and q = newParser
      and chunks = ?chunks]
  note ta = sentinel_retention_and_chunking [where S = "''Hello <|tool''" and T = SECTION_BEGIN
      and p = ?pa and chunk = \<open>''{"city":"SF"}<|tool_call_e''\<close> and q = newParser
      and chunks = ?chunks]
  note tf = sentinel_retention_and_chunking [where S = "''Hello <|tool''" and T = SECTION_BEGIN
      and p = "newParser\<lparr> buffer := ''<|tool'' \<rparr>" and chunk = "[]" and q = newParser
      and chunks = ?chunks]
  have k: "findPartialMatch ''Hello <|tool'' SECTION_BEGIN = 6"
    by (simp add: findPartialMatch_def SECTION_BEGIN_def)
  have j: "drop (length ''Hello <|tool'' - 7) ''Hello <|tool'' \<noteq> take 7 SECTION_BEGIN"
  proof -
    have "(6::nat) < 7 \<and> 7 \<le> length ''Hello <|tool'' \<and> 7 \<le> length SECTION_BEGIN - 1"
      by (simp add: SECTION_BEGIN_def)
    then show ?thesis using t [THEN conjunct1] unfolding Let_def k by blast
  qed
  have h: "\<not> inToolSection newParser
      \<and> \<not> includesStr (buffer newParser @ ''Hello <|tool'') SECTION_BEGIN"
    by (simp add: newParser_def includesStr_def SECTION_BEGIN_def)
  have p: "processChunk newParser ''Hello <|tool''
       = (newParser\<lparr> buffer := ''<|tool'' \<rparr>, [Thinking ''Hello ''])"
    using mp [OF t [THEN conjunct2, THEN conjunct1] h] k by (simp add: Let_def newParser_def)
  have hs: "inToolSection ?ps \<and> \<not> inToolCall ?ps
      \<and> \<not> includesStr (buffer ?ps @ '' <|tool_call_be'') CALL_BEGIN"
    by (simp add: newParser_def includesStr_def CALL_BEGIN_def)
  have ps: "processChunk ?ps '' <|tool_call_be''
       = (newParser\<lparr> inToolSection := True, buffer := '' <|tool_call_be'' \<rparr>, [])"
    using mp [OF ts [THEN conjunct2, THEN conjunct2, THEN conjunct1] hs]
    by (simp add: newParser_def)
  have kn: "findPartialMatch ''get_weather<|tool_call_arg'' ARG_BEGIN = 15"
    by (simp add: findPartialMatch_def ARG_BEGIN_def)
  have hn: "inToolSection ?pn \<and> inToolCall ?pn \<and> \<not> inArguments ?pn
      \<and> \<not> includesStr (buffer ?pn @ ''get_weather<|tool_call_arg'') ARG_BEGIN"
    by (simp add: newParser_def includesStr_def ARG_BEGIN_def)
  have pn: "processChunk ?pn ''get_weather<|tool_call_arg''
       = (newParser\<lparr> inToolSection := True, inToolCall := True,
            currentToolName := ''get_weather'', buffer := ''<|tool_call_arg'' \<rparr>, [])"
    using mp [OF tn [THEN conjunct2, THEN conjunct2, THEN conjunct2, THEN conjunct1] hn] kn
    by (simp add: Let_def newParser_def)
  have ka: \<open>findPartialMatch ''{"city":"SF"}<|tool_call_e'' CALL_END = 13\<close>
    by (simp add: findPartialMatch_def CALL_END_def)
  have ha: \<open>inToolSection ?pa \<and> inToolCall ?pa \<and> inArguments ?pa
      \<and> \<not> includesStr (buffer ?pa @ ''{"city":"SF"}<|tool_call_e'') CALL_END\<close>
    by (simp add: newParser_def includesStr_def CALL_END_def)
  have pa: \<open>processChunk ?pa ''{"city":"SF"}<|tool_call_e''
       = (newParser\<lparr> inToolSection := True, inToolCall := True, inArguments := True,
            currentToolName := ''get_weather'', currentToolArgs := ''{"city":"SF"}'',
            buffer := ''<|tool_call_e'' \<rparr>, [])\<close>
    using mp [OF ta [THEN conjunct2, THEN conjunct2, THEN conjunct2, THEN conjunct2,
        THEN conjunct1] ha] ka
    by (simp add: Let_def newParser_def)
  have f: "flush (newParser\<lparr> buffer := ''<|tool'' \<rparr>) = (newParser, [Thinking ''<|tool''])"
    using tf [THEN conjunct2, THEN conjunct2, THEN conjunct2, THEN conjunct2, THEN conjunct2,
        THEN conjunct1]
    by (simp add: newParser_def)
  have m: "Thinking ''Hello '' \<in> set (snd (feed newParser [''Hello <|tool'']))"
    using p by simp
  have n: "\<not> includesStr ''Hello '' SECTION_BEGIN"
    using ts [THEN conjunct2, THEN conjunct2, THEN conjunct2, THEN conjunct2, THEN conjunct2,
        THEN conjunct2, THEN conjunct1] m by blast
  have m2: "Thinking ''<|tool'' \<in> set (parseStream [''Hello <|tool''])"
    using p by (simp add: parseStream_def flush_def)
  have "\<not> includesStr (concat [''Hello <|tool'']) SECTION_BEGIN"
    by (simp add: includesStr_def SECTION_BEGIN_def)
  then have n2: "\<not> includesStr ''<|tool'' SECTION_BEGIN"
    using ts [THEN conjunct2, THEN conjunct2, THEN conjunct2, THEN conjunct2, THEN conjunct2,
        THEN conjunct2, THEN conjunct2, THEN conjunct1] m2 by blast
  have one: \<open>parseStream [concat ?chunks] = [Tool ''get_weather'' ''{"city":"SF"}'']\<close>
    by (simp add: parseStream_def processChunk_def newParser_def step_def SECTION_BEGIN_def
        CALL_BEGIN_def ARG_BEGIN_def CALL_END_def findPartialMatch_def Let_def flush_def
        processLoop.simps trim_def isWhiteSpace_def)
  have tr: \<open>trace (parseStream ?chunks) = [ToolCall ''get_weather'' ''{"city":"SF"}'']\<close>
    using t [THEN conjunct2, THEN conjunct2, THEN conjunct2, THEN conjunct2, THEN conjunct2,
        THEN conjunct2, THEN conjunct2, THEN conjunct2, THEN conjunct2, THEN conjunct2]
    unfolding one by simp
  show ?thesis by (intro conjI k j p ps pn pa f m n m2 n2 tr)
qed

text \<open>
  The claim as written says that no sentinel is ever seen in a content result. Outside a
  tool section only the section-begin sentinel is a delimiter, so the call-end sentinel passes
  through \<^verbatim>\<open>processChunk\<close> as content. \<^verbatim>\<open>flush\<close> emits the text kept inside a section, which
  may hold the section-begin sentinel itself, and the withheld beginning of a sentinel.
\<close>

theorem sentinel_in_content_counterexample:
  "processChunk newParser ''<|tool_call_end|>''
     = (newParser, [Thinking ''<|tool_call_end|>''])
   \<and> includesStr ''<|tool_call_end|>'' CALL_END
   \<and> parseStream [''<|tool_calls_section_begin|>x<|tool_calls_section_begin|>'']
     = [Thinking ''x<|tool_calls_section_begin|>'']
   \<and> includesStr ''x<|tool_calls_section_begin|>'' SECTION_BEGIN
   \<and> parseStream
       [''<|tool_calls_section_begin|><|tool_call_begin|>f<|tool_call_argument_begin|>{}<|tool_call_e'']
     = [Thinking ''<|tool_call_e'']"
  by (simp add: parseStream_def processChunk_def newParser_def step_def SECTION_BEGIN_def
      CALL_BEGIN_def ARG_BEGIN_def CALL_END_def findPartialMatch_def Let_def flush_def
      processLoop.simps includesStr_def)


text \<open>
  Claim C3. For every input that contains no section-begin sentinel, and every way of
  splitting it into consecutive chunks, the contents of all results of \<^verbatim>\<open>processChunk\<close> over
  the chunks, followed by those of \<^verbatim>\<open>flush\<close>, concatenate to the concatenation of the chunks.
\<close>

theorem kimi_plain_text_preserved:
  assumes "\<not> includesStr (concat chunks) SECTION_BEGIN"
  shows "concat (map content (parseStream chunks)) = concat chunks"
proof -
  have "\<not> sublist SECTION_BEGIN (buffer newParser @ concat chunks)"
    using assms by (simp add: includesStr_def indexOf_None_iff newParser_def)
  moreover have "\<not> inToolSection newParser" by (simp add: newParser_def)
  ultimately have
    "concat (map content (snd (feed newParser chunks))) @ buffer (fst (feed newParser chunks))
       = buffer newParser @ concat chunks"
    using feed_scanning by blast
  moreover obtain p rs where fd: "feed newParser chunks = (p, rs)"
    by (cases "feed newParser chunks") auto
  ultimately have inv: "concat (map content rs) @ buffer p = concat chunks"
    by (simp add: newParser_def)
  show ?thesis
  proof (cases "buffer p = []")
    case True
    with inv show ?thesis by (simp add: parseStream_def flush_def fd)
  next
    case False
    with inv show ?thesis by (simp add: parseStream_def flush_def fd)
  qed
qed

theorem kimi_plain_text_preserved_witness:
  "\<not> includesStr (concat [''ab<|to'', ''ol_x'', ''<'']) SECTION_BEGIN
   \<and> parseStream [''ab<|to'', ''ol_x'', ''<'']
       = [Thinking ''ab'', Thinking ''<|tool_x'', Thinking ''<'']
   \<and> concat (map content (parseStream [''ab<|to'', ''ol_x'', ''<'']))
       = concat [''ab<|to'', ''ol_x'', ''<'']"
proof -
  have h: "\<not> includesStr (concat [''ab<|to'', ''ol_x'', ''<'']) SECTION_BEGIN"
    by (simp add: includesStr_def SECTION_BEGIN_def)
  have e: "parseStream [''ab<|to'', ''ol_x'', ''<'']
             = [Thinking ''ab'', Thinking ''<|tool_x'', Thinking ''<'']"
    by (simp add: parseStream_def processChunk_def newParser_def step_def SECTION_BEGIN_def
        findPartialMatch_def Let_def flush_def processLoop.simps)
  show ?thesis using h e kimi_plain_text_preserved [OF h] by simp
qed

text \<open>
  Claim C4, as the code has it. When the parser is inside a call's arguments and the call-end
  sentinel is found in the buffer, the pass pushes exactly one tool result, whose name is the
  trimmed name accumulator and whose arguments are the trimmed argument accumulator extended
  by the buffered text before the sentinel. It then clears \<^verbatim>\<open>inArguments\<close> and
  \<^verbatim>\<open>inToolCall\<close>: the parser is back in the section, waiting for a call-begin sentinel,
  and both accumulators still hold the finished call. They are emptied by the pass that finds
  the next call-begin sentinel, which is how further calls of the section are parsed.
\<close>

theorem call_end_found:
  assumes "inToolSection p" "inToolCall p" "inArguments p"
    and "indexOf (buffer p) CALL_END = Some endIndex"
  shows "step p =
     (p\<lparr> currentToolArgs := currentToolArgs p @ take endIndex (buffer p),
         buffer := drop (endIndex + length CALL_END) (buffer p),
         inArguments := False, inToolCall := False \<rparr>,
      [Tool (trim (currentToolName p)) (trim (currentToolArgs p @ take endIndex (buffer p)))],
      True)
    \<and> (\<forall>q callIndex. inToolSection q \<and> \<not> inToolCall q
          \<and> indexOf (buffer q) CALL_BEGIN = Some callIndex \<longrightarrow>
        step q = (q\<lparr> buffer := drop (callIndex + length CALL_BEGIN) (buffer q),
                     inToolCall := True, currentToolName := [], currentToolArgs := [] \<rparr>,
                  [], True))"
  using assms by (simp add: step_def Let_def)

text \<open>
  The state the parser reaches in the middle of a second call's arguments, used as the
  concrete input below: it is what \<^verbatim>\<open>processChunk\<close> leaves after the text
  \<^verbatim>\<open><|tool_calls_section_begin|><|tool_call_begin|> f <|tool_call_argument_begin|>{\<close>.
\<close>

theorem call_end_found_witness:
  "processChunk newParser
      ''<|tool_calls_section_begin|><|tool_call_begin|> f <|tool_call_argument_begin|>{''
    = (\<lparr> buffer = [], inToolSection = True, inToolCall = True, inArguments = True,
          currentToolName = '' f '', currentToolArgs = ''{'' \<rparr>, [])
   \<and> step \<lparr> buffer = ''} <|tool_call_end|><|tool_call_begin|>g'', inToolSection = True,
             inToolCall = True, inArguments = True,
             currentToolName = '' f '', currentToolArgs = ''{'' \<rparr>
    = (\<lparr> buffer = ''<|tool_call_begin|>g'', inToolSection = True, inToolCall = False,
          inArguments = False, currentToolName = '' f '', currentToolArgs = ''{} '' \<rparr>,
       [Tool ''f'' ''{}''], True)
   \<and> step \<lparr> buffer = ''<|tool_call_begin|>g'', inToolSection = True, inToolCall = False,
             inArguments = False, currentToolName = '' f '', currentToolArgs = ''{} '' \<rparr>
    = (\<lparr> buffer = ''g'', inToolSection = True, inToolCall = True,
          inArguments = False, currentToolName = [], currentToolArgs = [] \<rparr>, [], True)"
proof -
  let ?p = "\<lparr> buffer = ''} <|tool_call_end|><|tool_call_begin|>g'', inToolSection = True,
             inToolCall = True, inArguments = True,
             currentToolName = '' f '', currentToolArgs = ''{'' \<rparr>"
  let ?q = "\<lparr> buffer = ''<|tool_call_begin|>g'', inToolSection = True, inToolCall = False,
             inArguments = False, currentToolName = '' f '', currentToolArgs = ''{} '' \<rparr>"
  have i: "indexOf (buffer ?p) CALL_END = Some 2" by (simp add: CALL_END_def)
  have j: "inToolSection ?q \<and> \<not> inToolCall ?q \<and> indexOf (buffer ?q) CALL_BEGIN = Some 0"
    by (simp add: CALL_BEGIN_def)
  have r: "processChunk newParser
      ''<|tool_calls_section_begin|><|tool_call_begin|> f <|tool_call_argument_begin|>{''
    = (\<lparr> buffer = [], inToolSection = True, inToolCall = True, inArguments = True,
          currentToolName = '' f '', currentToolArgs = ''{'' \<rparr>, [])"
    by (simp add: processChunk_def newParser_def step_def SECTION_BEGIN_def CALL_BEGIN_def
        ARG_BEGIN_def CALL_END_def findPartialMatch_def Let_def processLoop.simps)
  note t = call_end_found [of ?p 2, OF _ _ _ i]
  have a: "step ?p = (?q, [Tool ''f'' ''{}''], True)"
    using t by (simp add: CALL_END_def trim_def isWhiteSpace_def)
  have b: "step ?q = (\<lparr> buffer = ''g'', inToolSection = True, inToolCall = True,
          inArguments = False, currentToolName = [], currentToolArgs = [] \<rparr>, [], True)"
    using t j by (simp add: CALL_BEGIN_def)
  show ?thesis using r a b by simp
qed

text \<open>
  The claim as written fails: after the call-end sentinel the parser is not in the state that
  captures a name (\<^verbatim>\<open>inToolCall\<close> is false), and the accumulators are not reset.
\<close>

theorem call_end_found_counterexample:
  "fst (processChunk newParser
     ''<|tool_calls_section_begin|><|tool_call_begin|>f<|tool_call_argument_begin|>{}<|tool_call_end|>'')
    = \<lparr> buffer = [], inToolSection = True, inToolCall = False, inArguments = False,
        currentToolName = ''f'', currentToolArgs = ''{}'' \<rparr>"
  by (simp add: processChunk_def newParser_def step_def SECTION_BEGIN_def CALL_BEGIN_def
      ARG_BEGIN_def CALL_END_def findPartialMatch_def Let_def processLoop.simps)

section \<open>Claims about the provider\<close>

text \<open>
  Claim C7, for fragments that concatenate to \<^verbatim>\<open>{"a":1}\<close>. The two fragments of the claim, \<^verbatim>\<open>{"\<close> and
  \<^verbatim>\<open>"a":1}\<close>, concatenate to \<^verbatim>\<open>{""a":1}\<close>, which is not well-formed. For a tool-call record whose
  argument text arrives as the two fragments \<^verbatim>\<open>{"\<close> and \<^verbatim>\<open>a":1}\<close>, nothing is reported after
  the first fragment, the record is reported exactly once after the second, with the object
  \<^verbatim>\<open>{a:1}\<close> as its structured arguments, and neither a retransmission nor the finish marker
  nor the end of the stream reports it again.
\<close>

theorem two_fragment_arguments:
  assumes "parseArguments h = tryParseJSONObject" "i \<noteq> []" "name \<noteq> []"
  shows \<open>processStreamingResponse h [toolCallDelta index (Some i) (Some name) ''{"''] = []
    \<and> processStreamingResponse h
        [toolCallDelta index (Some i) (Some name) ''{"'', toolCallDelta index None None ''a":1}'']
      = [(Some index, LanguageModelToolCallPart i name (JObject [(codeUnits ''a'', JNumber ''1'')]))]
    \<and> processStreamingResponse h
        [toolCallDelta index (Some i) (Some name) ''{"'', toolCallDelta index None None ''a":1}'',
         toolCallDelta index (Some i) (Some name) ''{"a":1}'', finishDelta ''tool_calls'', DoneLine]
      = [(Some index, LanguageModelToolCallPart i name (JObject [(codeUnits ''a'', JNumber ''1'')]))]\<close>
proof -
  have p1: \<open>tryParseJSONObject ''{"'' = None\<close> by (simp add: json_eval)
  have p2: \<open>tryParseJSONObject ''{"a":1}'' = Some (JObject [(codeUnits ''a'', JNumber ''1'')])\<close>
    by (simp add: json_eval)
  show ?thesis using assms p1 p2 by (simp add: provider_eval)
qed

theorem two_fragment_arguments_witness:
  \<open>processStreamingResponse exampleHost
        [toolCallDelta 0 (Some ''call_1'') (Some ''get_weather'') ''{"'',
         toolCallDelta 0 None None ''a":1}'']
      = [(Some 0, LanguageModelToolCallPart ''call_1'' ''get_weather'' (JObject [(codeUnits ''a'', JNumber ''1'')]))]\<close>
proof -
  have "parseArguments exampleHost = tryParseJSONObject" by (simp add: exampleHost_def)
  from two_fragment_arguments [OF this, of "''call_1''" "''get_weather''" 0]
  show ?thesis by simp
qed

text \<open>
  With the fragments as the claim writes them the accumulated text never parses, and the
  record is never reported, not even by the forced flushes.
\<close>

theorem two_fragment_arguments_counterexample:
  \<open>tryParseJSONObject (''{"'' @ ''"a":1}'') = None
   \<and> processStreamingResponse exampleHost
        [toolCallDelta 0 (Some ''call_1'') (Some ''get_weather'') ''{"'',
         toolCallDelta 0 None None ''"a":1}'', finishDelta ''tool_calls'', DoneLine]
      = []\<close>
proof -
  have p1: \<open>tryParseJSONObject ''{"'' = None\<close> by (simp add: json_eval)
  have p2: \<open>tryParseJSONObject ''{""a":1}'' = None\<close> by (simp add: json_eval)
  show ?thesis using p1 p2 by (simp add: provider_eval exampleHost_def)
qed


text \<open>
  Claim C9, as the code has it. Both versions of the provider search each content fragment
  for whole tags only, and once a fragment without a start tag has been seen outside a think
  block they stop searching. The fragments \<^verbatim>\<open>Hello <thi\<close>, \<^verbatim>\<open>nk>pondering\<close>,
  \<^verbatim>\<open></think> world\<close> therefore yield three text parts that carry the fragments unchanged, and
  no thinking part. When the tags arrive whole and first, as in \<^verbatim>\<open><think>pondering</think>\<close>
  followed by \<^verbatim>\<open> world\<close>, the result is a thinking part \<^verbatim>\<open>pondering\<close> and then the text; the
  variant with reasoning coalescing reports between them the empty thinking part that closes
  the block.
\<close>

theorem think_tag_scenario:
  "map snd (processStreamingResponse h
      [contentDelta ''Hello <thi'', contentDelta ''nk>pondering'', contentDelta ''</think> world''])
    = [LanguageModelTextPart ''Hello <thi'', LanguageModelTextPart ''nk>pondering'',
       LanguageModelTextPart ''</think> world'']
   \<and> processStreamingResponseC h
      [contentDeltaC ''Hello <thi'', contentDeltaC ''nk>pondering'', contentDeltaC ''</think> world'']
    = [LanguageModelTextPart ''Hello <thi'', LanguageModelTextPart ''nk>pondering'',
       LanguageModelTextPart ''</think> world'']
   \<and> map snd (processStreamingResponse h
      [contentDelta ''<think>pondering</think>'', contentDelta '' world''])
    = [LanguageModelThinkingPart ''pondering'' (idOrUndefined (Some (randomThinkingId h 0))) None,
       LanguageModelTextPart '' world'']
   \<and> processStreamingResponseC h
      [contentDeltaC ''<think>pondering</think>'', contentDeltaC '' world'']
    = (let i = (if randomThinkingId h 0 \<noteq> [] then randomThinkingId h 0 else randomThinkingId h 1)
       in [LanguageModelThinkingPart ''pondering'' (Some i) None]
          @ (if i \<noteq> [] then [LanguageModelThinkingPart [] (Some i) None] else [])
          @ [LanguageModelTextPart '' world''])"
proof -
  have a: "map snd (processStreamingResponse h
      [contentDelta ''Hello <thi'', contentDelta ''nk>pondering'', contentDelta ''</think> world''])
    = [LanguageModelTextPart ''Hello <thi'', LanguageModelTextPart ''nk>pondering'',
       LanguageModelTextPart ''</think> world'']"
    by (simp add: provider_eval)
  have b: "processStreamingResponseC h
      [contentDeltaC ''Hello <thi'', contentDeltaC ''nk>pondering'', contentDeltaC ''</think> world'']
    = [LanguageModelTextPart ''Hello <thi'', LanguageModelTextPart ''nk>pondering'',
       LanguageModelTextPart ''</think> world'']"
    by (simp add: providerC_eval)
  have c: "map snd (processStreamingResponse h
      [contentDelta ''<think>pondering</think>'', contentDelta '' world''])
    = [LanguageModelThinkingPart ''pondering'' (idOrUndefined (Some (randomThinkingId h 0))) None,
       LanguageModelTextPart '' world'']"
    by (simp add: provider_eval)
  have d: "processStreamingResponseC h
      [contentDeltaC ''<think>pondering</think>'', contentDeltaC '' world'']
    = (let i = (if randomThinkingId h 0 \<noteq> [] then randomThinkingId h 0 else randomThinkingId h 1)
       in [LanguageModelThinkingPart ''pondering'' (Some i) None]
          @ (if i \<noteq> [] then [LanguageModelThinkingPart [] (Some i) None] else [])
          @ [LanguageModelTextPart '' world''])"
    by (simp add: providerC_eval)
  show ?thesis by (intro conjI a b c d)
qed

text \<open>The parts are not the ones the claim lists.\<close>

theorem think_tag_scenario_counterexample:
  "map snd (processStreamingResponse exampleHost
      [contentDelta ''Hello <thi'', contentDelta ''nk>pondering'', contentDelta ''</think> world''])
    \<noteq> [LanguageModelTextPart ''Hello '',
        LanguageModelThinkingPart ''pondering'' (Some (randomThinkingId exampleHost 0)) None,
        LanguageModelTextPart '' world'']
   \<and> hd (processStreamingResponseC exampleHost
      [contentDeltaC ''Hello <thi'', contentDeltaC ''nk>pondering'', contentDeltaC ''</think> world''])
    = LanguageModelTextPart ''Hello <thi''"
  by (simp add: provider_eval providerC_eval)

text \<open>
  Claim C10, as the code has it. A buffered tool call is reported, by
  \<^verbatim>\<open>tryEmitBufferedToolCall\<close> and by \<^verbatim>\<open>flushToolCallBuffers\<close> alike, under its identifier (the
  buffered one, or a random one), followed by the separator \<^verbatim>\<open>::gemini_sig::\<close> and the thought
  signature when the buffer has a signature that is not empty; without a signature, or with
  the empty one, it is reported under the identifier alone. On a later request the
  identifier of an assistant tool call that contains the separator is cut at the first
  separator: the text before it becomes the identifier and the text between it and the next
  separator (or the end) becomes the signature of the provider-specific fields, when both are
  not empty; otherwise the tool call is left as it is. So an identifier and a signature that
  are not empty come back from the reported identifier when the signature does not contain
  the separator and the separator occurs in the reported identifier first where it was
  inserted. An identifier without the separator passes through unchanged.
\<close>

theorem signature_round_trip:
  "(thoughtSignature buf = Some sg \<and> sg \<noteq> [] \<longrightarrow> finalIdOf i buf = i @ SIG_SEPARATOR @ sg)
   \<and> (thoughtSignature buf = None \<or> thoughtSignature buf = Some [] \<longrightarrow> finalIdOf i buf = i)
   \<and> (map_of (toolCallBuffers st) index = Some buf \<and> truthy (bufName buf)
         \<and> parseArguments h (args buf) = Some parameters \<longrightarrow>
       snd (tryEmitBufferedToolCall h st index)
         = [(Some index, LanguageModelToolCallPart (finalIdOf (fst (callIdOf h st buf)) buf)
              (the (bufName buf)) parameters)])
   \<and> (parseArguments h (args buf) = Some parameters \<longrightarrow>
       fst (snd (flushToolCallBuffers h (st\<lparr> toolCallBuffers := [(index, buf)] \<rparr>) throwOnInvalid))
         = [(Some index, LanguageModelToolCallPart (finalIdOf (fst (callIdOf h st buf)) buf)
              (case bufName buf of Some n \<Rightarrow> n | None \<Rightarrow> ''unknown_tool'') parameters)])
   \<and> (indexOf (toolCallId tc) SIG_SEPARATOR = Some k \<longrightarrow>
       restoreToolCall tc
         = (let realId = take k (toolCallId tc);
                rest = drop (k + length SIG_SEPARATOR) (toolCallId tc);
                signature = (case indexOf rest SIG_SEPARATOR of None \<Rightarrow> rest | Some j \<Rightarrow> take j rest)
            in if realId \<noteq> [] \<and> signature \<noteq> []
               then tc\<lparr> toolCallId := realId, providerThoughtSignature := Some signature \<rparr>
               else tc))
   \<and> (i \<noteq> [] \<and> sg \<noteq> [] \<and> \<not> includesStr sg SIG_SEPARATOR
         \<and> indexOf (i @ SIG_SEPARATOR @ sg) SIG_SEPARATOR = Some (length i) \<longrightarrow>
       restoreToolCall (tc\<lparr> toolCallId := i @ SIG_SEPARATOR @ sg \<rparr>)
         = tc\<lparr> toolCallId := i, providerThoughtSignature := Some sg \<rparr>)
   \<and> (\<not> includesStr (toolCallId tc) SIG_SEPARATOR \<longrightarrow> restoreToolCall tc = tc)"
proof -
  have f1: "thoughtSignature buf = Some sg \<and> sg \<noteq> [] \<longrightarrow> finalIdOf i buf = i @ SIG_SEPARATOR @ sg"
    by (simp add: finalIdOf_def truthy_def)
  have f2: "thoughtSignature buf = None \<or> thoughtSignature buf = Some [] \<longrightarrow> finalIdOf i buf = i"
    by (auto simp: finalIdOf_def truthy_def)
  have e: "map_of (toolCallBuffers st) index = Some buf \<and> truthy (bufName buf)
         \<and> parseArguments h (args buf) = Some parameters \<longrightarrow>
       snd (tryEmitBufferedToolCall h st index)
         = [(Some index, LanguageModelToolCallPart (finalIdOf (fst (callIdOf h st buf)) buf)
              (the (bufName buf)) parameters)]"
    by (auto simp: tryEmitBufferedToolCall_def split: option.splits prod.splits)
  have g: "parseArguments h (args buf) = Some parameters \<longrightarrow>
       fst (snd (flushToolCallBuffers h (st\<lparr> toolCallBuffers := [(index, buf)] \<rparr>) throwOnInvalid))
         = [(Some index, LanguageModelToolCallPart (finalIdOf (fst (callIdOf h st buf)) buf)
              (case bufName buf of Some n \<Rightarrow> n | None \<Rightarrow> ''unknown_tool'') parameters)]"
    using callIdOf_fst_buffers [where h = h and st = st and bs = "[(index, buf)]" and buf = buf]
    by (auto simp: flushToolCallBuffers_def split: option.splits prod.splits)
  have r: "indexOf (toolCallId tc) SIG_SEPARATOR = Some k \<longrightarrow>
       restoreToolCall tc
         = (let realId = take k (toolCallId tc);
                rest = drop (k + length SIG_SEPARATOR) (toolCallId tc);
                signature = (case indexOf rest SIG_SEPARATOR of None \<Rightarrow> rest | Some j \<Rightarrow> take j rest)
            in if realId \<noteq> [] \<and> signature \<noteq> []
               then tc\<lparr> toolCallId := realId, providerThoughtSignature := Some signature \<rparr>
               else tc)"
    using restoreToolCall_found by blast
  have t: "i \<noteq> [] \<and> sg \<noteq> [] \<and> \<not> includesStr sg SIG_SEPARATOR
         \<and> indexOf (i @ SIG_SEPARATOR @ sg) SIG_SEPARATOR = Some (length i) \<longrightarrow>
       restoreToolCall (tc\<lparr> toolCallId := i @ SIG_SEPARATOR @ sg \<rparr>)
         = tc\<lparr> toolCallId := i, providerThoughtSignature := Some sg \<rparr>"
  proof (intro impI, elim conjE)
    assume a: "i \<noteq> []" "sg \<noteq> []" "\<not> includesStr sg SIG_SEPARATOR"
      "indexOf (i @ SIG_SEPARATOR @ sg) SIG_SEPARATOR = Some (length i)"
    have n: "indexOf sg SIG_SEPARATOR = None" using a(3) by (simp add: includesStr_def)
    have "indexOf (toolCallId (tc\<lparr> toolCallId := i @ SIG_SEPARATOR @ sg \<rparr>)) SIG_SEPARATOR = Some (length i)"
      using a(4) by simp
    from restoreToolCall_found [OF this]
    show "restoreToolCall (tc\<lparr> toolCallId := i @ SIG_SEPARATOR @ sg \<rparr>)
         = tc\<lparr> toolCallId := i, providerThoughtSignature := Some sg \<rparr>"
      using a(1,2) n by (simp add: Let_def)
  qed
  have u: "\<not> includesStr (toolCallId tc) SIG_SEPARATOR \<longrightarrow> restoreToolCall tc = tc"
    by (simp add: restoreToolCall_def)
  show ?thesis using f1 f2 e g r t u by blast
qed


theorem signature_round_trip_witness:
  "finalIdOf ''call_1'' \<lparr> bufId = Some ''call_1'', bufName = Some ''f'', args = ''{}'',
       thoughtSignature = Some ''c2lnMQ=='' \<rparr> = ''call_1::gemini_sig::c2lnMQ==''
   \<and> finalIdOf ''call_1'' \<lparr> bufId = Some ''call_1'', bufName = Some ''f'', args = ''{}'',
       thoughtSignature = Some [] \<rparr> = ''call_1''
   \<and> snd (tryEmitBufferedToolCall exampleHost
       (newProvider\<lparr> toolCallBuffers :=
          [(0, \<lparr> bufId = Some ''call_1'', bufName = Some ''f'', args = ''{}'',
                 thoughtSignature = Some ''c2lnMQ=='' \<rparr>)] \<rparr>) 0)
     = [(Some 0, LanguageModelToolCallPart ''call_1::gemini_sig::c2lnMQ=='' ''f'' (JObject []))]
   \<and> fst (snd (flushToolCallBuffers exampleHost
       (newProvider\<lparr> toolCallBuffers :=
          [(0, \<lparr> bufId = Some ''call_1'', bufName = Some ''f'', args = ''{}'',
                 thoughtSignature = Some ''c2lnMQ=='' \<rparr>)] \<rparr>) False))
     = [(Some 0, LanguageModelToolCallPart ''call_1::gemini_sig::c2lnMQ=='' ''f'' (JObject []))]
   \<and> restoreToolCall \<lparr> toolCallId = ''call_3::gemini_sig::c2ln::gemini_sig::x'',
         providerThoughtSignature = None \<rparr>
     = \<lparr> toolCallId = ''call_3'', providerThoughtSignature = Some ''c2ln'' \<rparr>
   \<and> restoreToolCall \<lparr> toolCallId = ''call_1::gemini_sig::c2lnMQ=='', providerThoughtSignature = None \<rparr>
     = \<lparr> toolCallId = ''call_1'', providerThoughtSignature = Some ''c2lnMQ=='' \<rparr>
   \<and> restoreToolCall \<lparr> toolCallId = ''call_2'', providerThoughtSignature = None \<rparr>
     = \<lparr> toolCallId = ''call_2'', providerThoughtSignature = None \<rparr>"
proof -
  let ?buf = "\<lparr> bufId = Some ''call_1'', bufName = Some ''f'', args = ''{}'',
                 thoughtSignature = Some ''c2lnMQ=='' \<rparr>"
  let ?bufe = "\<lparr> bufId = Some ''call_1'', bufName = Some ''f'', args = ''{}'',
                 thoughtSignature = Some [] \<rparr>"
  let ?st = "newProvider\<lparr> toolCallBuffers := [(0, ?buf)] \<rparr>"
  let ?tc = "\<lparr> toolCallId = ''call_2'', providerThoughtSignature = None \<rparr>"
  let ?tc3 = "\<lparr> toolCallId = ''call_3::gemini_sig::c2ln::gemini_sig::x'',
         providerThoughtSignature = None \<rparr>"
  note t = signature_round_trip [where buf = ?buf and sg = "''c2lnMQ==''" and i = "''call_1''"
      and st = newProvider and index = 0 and h = exampleHost and parameters = "JObject []"
      and throwOnInvalid = False and tc = ?tc and k = 0]
  note t' = signature_round_trip [where buf = ?bufe and sg = "''c2lnMQ==''" and i = "''call_1''"
      and st = ?st and index = 0 and h = exampleHost and parameters = "JObject []"
      and throwOnInvalid = False and tc = ?tc3 and k = 6]
  have c: "fst (callIdOf exampleHost newProvider ?buf) = ''call_1''"
    "fst (callIdOf exampleHost ?st ?buf) = ''call_1''" by (simp_all add: callIdOf_def)
  have p: "parseArguments exampleHost (args ?buf) = Some (JObject [])"
    by (simp add: exampleHost_def tryParseJSONObject_def parseJSON_def skipSpace_def isJsonSpace_def)
  have f1: "finalIdOf ''call_1'' ?buf = ''call_1::gemini_sig::c2lnMQ==''"
    using t by (simp add: SIG_SEPARATOR_def)
  have f2: "finalIdOf ''call_1'' ?bufe = ''call_1''" using t' by simp
  have h3: "map_of (toolCallBuffers ?st) 0 = Some ?buf \<and> truthy (bufName ?buf)
       \<and> parseArguments exampleHost (args ?buf) = Some (JObject [])"
    using p by (simp add: truthy_def)
  have e: "snd (tryEmitBufferedToolCall exampleHost ?st 0)
     = [(Some 0, LanguageModelToolCallPart ''call_1::gemini_sig::c2lnMQ=='' ''f'' (JObject []))]"
    using signature_round_trip [where buf = ?buf and sg = "''c2lnMQ==''" and i = "''call_1''"
      and st = ?st and index = 0 and h = exampleHost and parameters = "JObject []"
      and throwOnInvalid = False and tc = ?tc and k = 0] h3
    unfolding c f1 by simp
  have g: "fst (snd (flushToolCallBuffers exampleHost ?st False))
     = [(Some 0, LanguageModelToolCallPart ''call_1::gemini_sig::c2lnMQ=='' ''f'' (JObject []))]"
    using t p unfolding c f1 by simp
  have h5: "indexOf (toolCallId ?tc3) SIG_SEPARATOR = Some 6"
    by (simp add: SIG_SEPARATOR_def)
  have r3: "restoreToolCall ?tc3 = \<lparr> toolCallId = ''call_3'', providerThoughtSignature = Some ''c2ln'' \<rparr>"
    using t' h5 by (simp add: SIG_SEPARATOR_def Let_def)
  have h6: "''call_1'' \<noteq> [] \<and> ''c2lnMQ=='' \<noteq> [] \<and> \<not> includesStr ''c2lnMQ=='' SIG_SEPARATOR
      \<and> indexOf (''call_1'' @ SIG_SEPARATOR @ ''c2lnMQ=='') SIG_SEPARATOR = Some (length ''call_1'')"
    by (simp add: includesStr_def SIG_SEPARATOR_def)
  have r: "restoreToolCall \<lparr> toolCallId = ''call_1::gemini_sig::c2lnMQ=='', providerThoughtSignature = None \<rparr>
     = \<lparr> toolCallId = ''call_1'', providerThoughtSignature = Some ''c2lnMQ=='' \<rparr>"
    using t h6 by (simp add: SIG_SEPARATOR_def)
  have h7: "\<not> includesStr (toolCallId ?tc) SIG_SEPARATOR"
    by (simp add: includesStr_def SIG_SEPARATOR_def)
  have u: "restoreToolCall ?tc = ?tc" using t h7 by blast
  show ?thesis using f1 f2 e g r3 r u by simp
qed

text \<open>
  A signature that contains the separator comes back cut at its first occurrence, and a call
  whose fragment carries the empty thought signature is reported under the bare identifier.
\<close>

theorem signature_round_trip_counterexample:
  "restoreToolCall \<lparr> toolCallId =
       finalIdOf ''call_1'' \<lparr> bufId = Some ''call_1'', bufName = Some ''f'', args = ''{}'',
                              thoughtSignature = Some ''a::gemini_sig::b'' \<rparr>,
     providerThoughtSignature = None \<rparr>
   = \<lparr> toolCallId = ''call_1'', providerThoughtSignature = Some ''a'' \<rparr>
   \<and> processStreamingResponse exampleHost
       [DataLine (Some (emptyChoice\<lparr> toolCalls :=
          Some [\<lparr> tcIndex = Some 0, tcId = Some ''call_1'', tcName = Some ''f'',
                  tcArguments = Some ''{}'', tcThoughtSignature = Some [] \<rparr>] \<rparr>))]
     = [(Some 0, LanguageModelToolCallPart ''call_1'' ''f'' (JObject []))]"
proof -
  have a: "restoreToolCall \<lparr> toolCallId =
       finalIdOf ''call_1'' \<lparr> bufId = Some ''call_1'', bufName = Some ''f'', args = ''{}'',
                              thoughtSignature = Some ''a::gemini_sig::b'' \<rparr>,
     providerThoughtSignature = None \<rparr>
   = \<lparr> toolCallId = ''call_1'', providerThoughtSignature = Some ''a'' \<rparr>"
    by (simp add: finalIdOf_def truthy_def restoreToolCall_def includesStr_def SIG_SEPARATOR_def
      splitStr.simps)
  have p: \<open>tryParseJSONObject ''{}'' = Some (JObject [])\<close> by (simp add: json_eval)
  have b: "processStreamingResponse exampleHost
       [DataLine (Some (emptyChoice\<lparr> toolCalls :=
          Some [\<lparr> tcIndex = Some 0, tcId = Some ''call_1'', tcName = Some ''f'',
                  tcArguments = Some ''{}'', tcThoughtSignature = Some [] \<rparr>] \<rparr>))]
     = [(Some 0, LanguageModelToolCallPart ''call_1'' ''f'' (JObject []))]"
    using p by (simp add: provider_eval exampleHost_def)
  show ?thesis using a b by simp
qed

text \<open>
  Claim C8. Every report is paired with the key (the index of the fragment) of the buffer it
  was emitted for. Over any stream, from the state at the start of a request, the number of
  tool-call parts reported for a key is one when the key is marked complete at the end and
  zero otherwise, so it never exceeds one whatever the source retransmits; a fragment for a
  key that is marked complete changes nothing and reports nothing; and only tool-call parts
  carry a key.
\<close>

theorem completed_key_reported_once:
  "reportsFor index (snd (processLines h newProvider ls))
     = (if index \<in> completedToolCallIndices (fst (processLines h newProvider ls)) then 1 else 0)
   \<and> (\<forall>st tc. index \<in> completedToolCallIndices st
         \<and> (case tcIndex tc of Some i \<Rightarrow> i | None \<Rightarrow> 0) = index
        \<longrightarrow> processToolCall h st tc = (st, []))
   \<and> (\<forall>r \<in> set (snd (processLines h newProvider ls)). labelled r)"
proof -
  have "buffersOk newProvider" by (simp add: buffersOk_def newProvider_def)
  then have "accounted newProvider (snd (processLines h newProvider ls))
               (fst (processLines h newProvider ls))"
    by (rule processLines_accounted)
  then have a: "reportsFor index (snd (processLines h newProvider ls))
     = (if index \<in> completedToolCallIndices (fst (processLines h newProvider ls)) then 1 else 0)"
    by (simp add: accounted_def newProvider_def)
  have b: "\<forall>st tc. index \<in> completedToolCallIndices st
         \<and> (case tcIndex tc of Some i \<Rightarrow> i | None \<Rightarrow> 0) = index
        \<longrightarrow> processToolCall h st tc = (st, [])"
    by (auto simp: processToolCall_def Let_def)
  show ?thesis using a b processLines_labelled by blast
qed


theorem completed_key_reported_once_witness:
  "reportsFor 0 (snd (processLines exampleHost newProvider
      [toolCallDelta 0 (Some ''call_1'') (Some ''f'') ''{}'',
       toolCallDelta 0 (Some ''call_1'') (Some ''f'') ''{}'',
       finishDelta ''stop'', DoneLine])) = 1
   \<and> processToolCall exampleHost
        (newProvider\<lparr> completedToolCallIndices := {0} \<rparr>)
        \<lparr> tcIndex = Some 0, tcId = Some ''call_1'', tcName = Some ''f'',
           tcArguments = Some ''{}'', tcThoughtSignature = None \<rparr>
      = (newProvider\<lparr> completedToolCallIndices := {0} \<rparr>, [])
   \<and> snd (processLines exampleHost newProvider
      [toolCallDelta 0 (Some ''call_1'') (Some ''f'') ''{}'',
       toolCallDelta 0 (Some ''call_1'') (Some ''f'') ''{}'',
       finishDelta ''stop'', DoneLine])
      = [(Some 0, LanguageModelToolCallPart ''call_1'' ''f'' (JObject []))]"
proof -
  let ?ls = "[toolCallDelta 0 (Some ''call_1'') (Some ''f'') ''{}'',
       toolCallDelta 0 (Some ''call_1'') (Some ''f'') ''{}'',
       finishDelta ''stop'', DoneLine]"
  let ?st = "newProvider\<lparr> completedToolCallIndices := {0} \<rparr>"
  let ?tc = "\<lparr> tcIndex = Some 0, tcId = Some ''call_1'', tcName = Some ''f'',
           tcArguments = Some ''{}'', tcThoughtSignature = None \<rparr>"
  note t = completed_key_reported_once [of 0 exampleHost ?ls]
  have p: "tryParseJSONObject ''{}'' = Some (JObject [])" by (simp add: json_eval)
  have e: "processLines exampleHost newProvider ?ls
      = (newProvider\<lparr> completedToolCallIndices := {0} \<rparr>,
         [(Some 0, LanguageModelToolCallPart ''call_1'' ''f'' (JObject []))])"
    using p by (simp add: provider_eval exampleHost_def)
  have c: "0 \<in> completedToolCallIndices ?st \<and> (case tcIndex ?tc of Some i \<Rightarrow> i | None \<Rightarrow> 0) = 0"
    by simp
  have a: "reportsFor 0 (snd (processLines exampleHost newProvider ?ls)) = 1"
    using t e by simp
  have b: "processToolCall exampleHost ?st ?tc = (?st, [])" using t c by blast
  show ?thesis using a b e by simp
qed

text \<open>
  Claim C5, as the code has it. In \<^verbatim>\<open>provider.ts\<close> the \<^verbatim>\<open>[DONE]\<close> marker and a finish marker
  \<^verbatim>\<open>tool_calls\<close> or \<^verbatim>\<open>stop\<close> flush the open records in the order they were opened, and every
  part a flush reports is a tool call for a buffered record whose argument text parses, with
  the parsed value: a record whose text does not parse is never reported. At \<^verbatim>\<open>[DONE]\<close>
  the flush reports every record that parses, raises no error and leaves buffered exactly
  the records that do not parse. At a finish marker it reports the records before the first
  one that does not parse, raises an error there, and leaves that record and all later ones
  buffered. Both flushes make the parse attempt. In the variant with reasoning coalescing
  the forced emission of a named record whose text does not parse removes the record and
  reports it with the empty object as arguments.
\<close>

theorem forced_flush:
  assumes "distinct (map fst (toolCallBuffers st))"
  shows "(\<forall>r \<in> set (fst (snd (flushToolCallBuffers h st throwOnInvalid))).
           \<exists>idx buf v i. (idx, buf) \<in> set (toolCallBuffers st)
             \<and> parseArguments h (args buf) = Some v
             \<and> r = (Some idx, LanguageModelToolCallPart (finalIdOf i buf)
                      (case bufName buf of Some n \<Rightarrow> n | None \<Rightarrow> ''unknown_tool'') v))
    \<and> snd (snd (flushToolCallBuffers h st False)) = None
    \<and> map fst (fst (snd (flushToolCallBuffers h st False)))
        = map (\<lambda>e. Some (fst e)) (filter (parses h) (toolCallBuffers st))
    \<and> toolCallBuffers (fst (flushToolCallBuffers h st False))
        = filter (\<lambda>e. \<not> parses h e) (toolCallBuffers st)
    \<and> snd (snd (flushToolCallBuffers h st True))
        = (if list_all (parses h) (toolCallBuffers st) then None else Some InvalidToolCallJSON)
    \<and> map fst (fst (snd (flushToolCallBuffers h st True)))
        = map (\<lambda>e. Some (fst e)) (takeWhile (parses h) (toolCallBuffers st))
    \<and> toolCallBuffers (fst (flushToolCallBuffers h st True))
        = dropWhile (parses h) (toolCallBuffers st)
    \<and> processLines h st [DoneLine]
        = (fst (flushToolCallBuffers h st False), fst (snd (flushToolCallBuffers h st False)))
    \<and> (reason = ''tool_calls'' \<or> reason = ''stop'' \<longrightarrow>
        processLines h st [finishDelta reason]
          = (fst (flushToolCallBuffers h st True), fst (snd (flushToolCallBuffers h st True))))
    \<and> (map_of (toolCallBuffersC sc) key = Some b \<and> bufNameC b \<noteq> []
          \<and> parseArguments h (bufArgumentsC b) = None \<longrightarrow>
        tryEmitBufferedToolCallC h sc key True
          = (sc\<lparr> toolCallBuffersC := AList.delete key (toolCallBuffersC sc) \<rparr>,
             [LanguageModelToolCallPart (bufIdC b) (bufNameC b) (JObject [])]))"
proof -
  have a: "\<forall>r \<in> set (fst (snd (flushToolCallBuffers h st throwOnInvalid))).
           \<exists>idx buf v i. (idx, buf) \<in> set (toolCallBuffers st)
             \<and> parseArguments h (args buf) = Some v
             \<and> r = (Some idx, LanguageModelToolCallPart (finalIdOf i buf)
                      (case bufName buf of Some n \<Rightarrow> n | None \<Rightarrow> ''unknown_tool'') v)"
    unfolding flushToolCallBuffers_def by (rule flushEntries_reports)
  note l = flushEntries_lenient [of h "toolCallBuffers st" st, folded flushToolCallBuffers_def]
  note s = flushEntries_strict [of h "toolCallBuffers st" st, folded flushToolCallBuffers_def]
  have l3: "toolCallBuffers (fst (flushToolCallBuffers h st False))
        = filter (\<lambda>e. \<not> parses h e) (toolCallBuffers st)"
    using l distinct_keys_filter [OF assms, of "parses h"] by simp
  have s3: "toolCallBuffers (fst (flushToolCallBuffers h st True))
        = dropWhile (parses h) (toolCallBuffers st)"
    using s distinct_keys_takeWhile [OF assms, of "parses h"] by simp
  have d: "processLines h st [DoneLine]
        = (fst (flushToolCallBuffers h st False), fst (snd (flushToolCallBuffers h st False)))"
    by (simp split: prod.splits)
  have f: "reason = ''tool_calls'' \<or> reason = ''stop'' \<longrightarrow>
        processLines h st [finishDelta reason]
          = (fst (flushToolCallBuffers h st True), fst (snd (flushToolCallBuffers h st True)))"
    by (auto simp: finishDelta_def processDelta_def emptyChoice_def truthy_def split: prod.splits)
  have c: "map_of (toolCallBuffersC sc) key = Some b \<and> bufNameC b \<noteq> []
          \<and> parseArguments h (bufArgumentsC b) = None \<longrightarrow>
        tryEmitBufferedToolCallC h sc key True
          = (sc\<lparr> toolCallBuffersC := AList.delete key (toolCallBuffersC sc) \<rparr>,
             [LanguageModelToolCallPart (bufIdC b) (bufNameC b) (JObject [])])"
    by (simp add: tryEmitBufferedToolCallC_def)
  show ?thesis using a l s l3 s3 d f c by blast
qed

theorem forced_flush_witness:
  \<open>processLines exampleHost
      (newProvider\<lparr> toolCallBuffers :=
         [(0, \<lparr> bufId = Some ''call_1'', bufName = Some ''f'', args = ''{"a":'',
                thoughtSignature = None \<rparr>),
          (1, \<lparr> bufId = Some ''call_2'', bufName = None, args = ''{}'',
                thoughtSignature = None \<rparr>)] \<rparr>)
      [DoneLine]
    = (newProvider\<lparr> toolCallBuffers :=
         [(0, \<lparr> bufId = Some ''call_1'', bufName = Some ''f'', args = ''{"a":'',
                thoughtSignature = None \<rparr>)],
         completedToolCallIndices := {1} \<rparr>,
       [(Some 1, LanguageModelToolCallPart ''call_2'' ''unknown_tool'' (JObject []))])
   \<and> tryEmitBufferedToolCallC exampleHost
        (newProviderC\<lparr> toolCallBuffersC :=
           [(''call_1'', \<lparr> bufIdC = ''call_1'', bufNameC = ''f'', bufArgumentsC = ''{"a":'' \<rparr>)] \<rparr>)
        ''call_1'' True
    = (newProviderC, [LanguageModelToolCallPart ''call_1'' ''f'' (JObject [])])
   \<and> processLines exampleHost
      (newProvider\<lparr> toolCallBuffers :=
         [(0, \<lparr> bufId = Some ''call_1'', bufName = Some ''f'', args = ''{"a":'',
                thoughtSignature = None \<rparr>),
          (1, \<lparr> bufId = Some ''call_2'', bufName = None, args = ''{}'',
                thoughtSignature = None \<rparr>)] \<rparr>)
      [finishDelta ''stop'']
    = (newProvider\<lparr> toolCallBuffers :=
         [(0, \<lparr> bufId = Some ''call_1'', bufName = Some ''f'', args = ''{"a":'',
                thoughtSignature = None \<rparr>),
          (1, \<lparr> bufId = Some ''call_2'', bufName = None, args = ''{}'',
                thoughtSignature = None \<rparr>)] \<rparr>, [])\<close>
proof -
  let ?b0 = \<open>\<lparr> bufId = Some ''call_1'', bufName = Some ''f'', args = ''{"a":'',
                thoughtSignature = None \<rparr>\<close>
  let ?b1 = "\<lparr> bufId = Some ''call_2'', bufName = None, args = ''{}'', thoughtSignature = None \<rparr>"
  let ?st = "newProvider\<lparr> toolCallBuffers := [(0, ?b0), (1, ?b1)] \<rparr>"
  let ?bc = \<open>\<lparr> bufIdC = ''call_1'', bufNameC = ''f'', bufArgumentsC = ''{"a":'' \<rparr>\<close>
  let ?sc = "newProviderC\<lparr> toolCallBuffersC := [(''call_1'', ?bc)] \<rparr>"
  have p1: \<open>tryParseJSONObject ''{"a":'' = None\<close> by (simp add: json_eval)
  have p2: \<open>tryParseJSONObject ''{}'' = Some (JObject [])\<close> by (simp add: json_eval)
  have dst: "distinct (map fst (toolCallBuffers ?st))" by simp
  note t = forced_flush [OF dst, of exampleHost False "''stop''" ?sc "''call_1''" ?bc]
  have fl: "flushToolCallBuffers exampleHost ?st False
      = (newProvider\<lparr> toolCallBuffers := [(0, ?b0)], completedToolCallIndices := {1} \<rparr>,
         [(Some 1, LanguageModelToolCallPart ''call_2'' ''unknown_tool'' (JObject []))], None)"
    using p1 p2
    by (simp add: flushToolCallBuffers_def exampleHost_def callIdOf_def finalIdOf_def truthy_def
        newProvider_def)
  have a: "processLines exampleHost ?st [DoneLine]
      = (newProvider\<lparr> toolCallBuffers := [(0, ?b0)], completedToolCallIndices := {1} \<rparr>,
         [(Some 1, LanguageModelToolCallPart ''call_2'' ''unknown_tool'' (JObject []))])"
    using t unfolding fl by simp
  have hc: "map_of (toolCallBuffersC ?sc) ''call_1'' = Some ?bc \<and> bufNameC ?bc \<noteq> []
          \<and> parseArguments exampleHost (bufArgumentsC ?bc) = None"
    using p1 by (simp add: exampleHost_def)
  have b: "tryEmitBufferedToolCallC exampleHost ?sc ''call_1'' True
      = (newProviderC, [LanguageModelToolCallPart ''call_1'' ''f'' (JObject [])])"
    using t hc by (simp add: newProviderC_def)
  have fs: "flushToolCallBuffers exampleHost ?st True = (?st, [], Some InvalidToolCallJSON)"
    using p1 by (simp add: flushToolCallBuffers_def exampleHost_def)
  have c: "processLines exampleHost ?st [finishDelta ''stop''] = (?st, [])"
    using t unfolding fs by simp
  show ?thesis using a b c by simp
qed


text \<open>
  The claim as written fails in both versions. In \<^verbatim>\<open>provider.ts\<close> a finish marker does not
  flush an open record that parses when a record opened before it does not. In the variant
  with reasoning coalescing a record whose text does not parse is reported.
\<close>

theorem forced_flush_counterexample:
  \<open>processStreamingResponse exampleHost
      [toolCallDelta 0 (Some ''call_1'') (Some ''f'') ''{"a":'',
       toolCallDelta 1 None None ''{}'',
       finishDelta ''tool_calls'']
     = []
   \<and> processStreamingResponseC exampleHost
      [toolCallDeltaC (Some ''call_1'') (Some ''f'') ''{"a":'', finishDeltaC ''stop'']
     = [LanguageModelToolCallPart ''call_1'' ''f'' (JObject [])]\<close>
proof -
  have p1: \<open>tryParseJSONObject ''{"a":'' = None\<close> by (simp add: json_eval)
  have p2: \<open>tryParseJSONObject ''{}'' = Some (JObject [])\<close> by (simp add: json_eval)
  have a: \<open>processStreamingResponse exampleHost
      [toolCallDelta 0 (Some ''call_1'') (Some ''f'') ''{"a":'',
       toolCallDelta 1 None None ''{}'',
       finishDelta ''tool_calls''] = []\<close>
    using p1 p2 by (simp add: provider_eval exampleHost_def)
  have b: \<open>processStreamingResponseC exampleHost
      [toolCallDeltaC (Some ''call_1'') (Some ''f'') ''{"a":'', finishDeltaC ''stop'']
     = [LanguageModelToolCallPart ''call_1'' ''f'' (JObject [])]\<close>
    using p1 by (simp add: providerC_eval providerC_tools_eval exampleHost_def)
  show ?thesis using a b by simp
qed

section \<open>Claims about reasoning\<close>

text \<open>
  Claim C1, as the code has it. A reasoning segment of type \<^verbatim>\<open>reasoning.text\<close> with a signature
  that is not empty is, in the variant with reasoning coalescing, always reported as a
  thinking part of its own, with its text and with the signature in the metadata; a pending
  coalesced buffer is reported before it, as a separate part, and the buffer is empty
  afterwards, so the segment is neither appended to the buffer nor merged with a neighbour.
  In \<^verbatim>\<open>provider.ts\<close>, which has no buffer, the segment is reported as a thinking part of its
  own with the signature in the metadata when its text is not empty; when its text is empty
  nothing is reported and the signature is only remembered.
\<close>

theorem signed_segment_own_event:
  assumes "rdType detail = ''reasoning.text''" "rdSignature detail = Some sg" "sg \<noteq> []"
  shows "(\<exists>i j. snd (processReasoningDetailC h st detail)
            = (if reasoningTextBuffer st = [] then []
               else [LanguageModelThinkingPart (reasoningTextBuffer st) (Some i)
                       (Some coalescedMetadata)])
              @ [LanguageModelThinkingPart (rdText detail) (Some j)
                   (Some \<lparr> mdFormat = rdFormat detail, mdType = Some ''reasoning.text'',
                            mdIndex = rdIndex detail, mdSignature = Some sg, mdData = None \<rparr>)])
    \<and> reasoningTextBuffer (fst (processReasoningDetailC h st detail)) = []
    \<and> (rdText detail \<noteq> [] \<longrightarrow>
        snd (processReasoningDetail h sa detail)
          = [(None, LanguageModelThinkingPart (rdText detail) (Some (fst (ensureThinkingId h sa)))
                (Some \<lparr> mdFormat = rdFormat detail, mdType = Some ''reasoning.text'',
                         mdIndex = rdIndex detail, mdSignature = Some sg, mdData = None \<rparr>))])
    \<and> (rdText detail = [] \<longrightarrow>
        processReasoningDetail h sa detail = (sa\<lparr> currentReasoningSignature := Some sg \<rparr>, []))"
proof -
  note d = detailSignature_signed [OF assms]
  obtain st1 out1 where f: "(if reasoningTextBuffer st \<noteq> [] then flushReasoningBuffer h st else (st, []))
      = (st1, out1)"
    by (cases "if reasoningTextBuffer st \<noteq> [] then flushReasoningBuffer h st else (st, [])") auto
  obtain j st2 where e: "ensureThinkingIdC h st1 = (j, st2)" by (cases "ensureThinkingIdC h st1") auto
  have b1: "reasoningTextBuffer st1 = []"
    using f by (auto simp: flushReasoningBuffer_def split: if_splits prod.splits)
  have b2: "reasoningTextBuffer st2 = reasoningTextBuffer st1"
    using e by (auto simp: ensureThinkingIdC_def split: if_splits)
  have o1: "\<exists>i. out1 = (if reasoningTextBuffer st = [] then []
               else [LanguageModelThinkingPart (reasoningTextBuffer st) (Some i)
                       (Some coalescedMetadata)])"
    using f by (auto simp: flushReasoningBuffer_def split: if_splits prod.splits)
  have r: "processReasoningDetailC h st detail
      = (st2, out1 @ [LanguageModelThinkingPart (rdText detail) (Some j)
                   (Some \<lparr> mdFormat = rdFormat detail, mdType = Some ''reasoning.text'',
                            mdIndex = rdIndex detail, mdSignature = Some sg, mdData = None \<rparr>)])"
    using d f e assms(1) by (simp add: processReasoningDetailC_def)
  have a: "rdText detail \<noteq> [] \<longrightarrow>
        snd (processReasoningDetail h sa detail)
          = [(None, LanguageModelThinkingPart (rdText detail) (Some (fst (ensureThinkingId h sa)))
                (Some \<lparr> mdFormat = rdFormat detail, mdType = Some ''reasoning.text'',
                         mdIndex = rdIndex detail, mdSignature = Some sg, mdData = None \<rparr>))]"
    using assms by (simp add: processReasoningDetail_def Let_def truthy_def ensureThinkingId_def
        split: prod.splits)
  have e: "rdText detail = [] \<longrightarrow>
        processReasoningDetail h sa detail = (sa\<lparr> currentReasoningSignature := Some sg \<rparr>, [])"
    using assms by (simp add: processReasoningDetail_def Let_def truthy_def)
  show ?thesis using r o1 b1 b2 a e by auto
qed

theorem signed_segment_own_event_witness:
  "processReasoningDetailC exampleHost (newProviderC\<lparr> reasoningTextBuffer := ''abc'' \<rparr>)
      \<lparr> rdType = ''reasoning.text'', rdIndex = Some 0, rdFormat = None, rdText = ''xy'',
         rdSummary = [], rdSignature = Some ''c2ln'', rdData = None, rdJson = [] \<rparr>
    = (newProviderC\<lparr> currentThinkingIdC := Some ''thinking_i'', randomDrawsC := 1 \<rparr>,
       [LanguageModelThinkingPart ''abc'' (Some ''thinking_i'') (Some coalescedMetadata),
        LanguageModelThinkingPart ''xy'' (Some ''thinking_i'')
          (Some \<lparr> mdFormat = None, mdType = Some ''reasoning.text'', mdIndex = Some 0,
                   mdSignature = Some ''c2ln'', mdData = None \<rparr>)])
   \<and> snd (processReasoningDetail exampleHost newProvider
      \<lparr> rdType = ''reasoning.text'', rdIndex = Some 0, rdFormat = None, rdText = ''xy'',
         rdSummary = [], rdSignature = Some ''c2ln'', rdData = None, rdJson = [] \<rparr>)
    = [(None, LanguageModelThinkingPart ''xy'' (Some ''thinking_i'')
          (Some \<lparr> mdFormat = None, mdType = Some ''reasoning.text'', mdIndex = Some 0,
                   mdSignature = Some ''c2ln'', mdData = None \<rparr>))]
   \<and> processReasoningDetail exampleHost newProvider
      \<lparr> rdType = ''reasoning.text'', rdIndex = Some 1, rdFormat = None, rdText = [],
         rdSummary = [], rdSignature = Some ''c2lnMg'', rdData = None, rdJson = [] \<rparr>
    = (newProvider\<lparr> currentReasoningSignature := Some ''c2lnMg'' \<rparr>, [])"
proof -
  let ?d = "\<lparr> rdType = ''reasoning.text'', rdIndex = Some 0, rdFormat = None, rdText = ''xy'',
         rdSummary = [], rdSignature = Some ''c2ln'', rdData = None, rdJson = [] \<rparr>"
  have h1: "rdType ?d = ''reasoning.text''" and h2: "rdSignature ?d = Some ''c2ln''"
    and h3: "''c2ln'' \<noteq> []" by simp_all
  note t = signed_segment_own_event [OF h1 h2 h3, of exampleHost
      "newProviderC\<lparr> reasoningTextBuffer := ''abc'' \<rparr>" newProvider]
  have a: "snd (processReasoningDetail exampleHost newProvider ?d)
    = [(None, LanguageModelThinkingPart ''xy'' (Some ''thinking_i'')
          (Some \<lparr> mdFormat = None, mdType = Some ''reasoning.text'', mdIndex = Some 0,
                   mdSignature = Some ''c2ln'', mdData = None \<rparr>))]"
    using t by (simp add: ensureThinkingId_def newProvider_def truthy_def exampleHost_def)
  have b: "processReasoningDetailC exampleHost (newProviderC\<lparr> reasoningTextBuffer := ''abc'' \<rparr>) ?d
    = (newProviderC\<lparr> currentThinkingIdC := Some ''thinking_i'', randomDrawsC := 1 \<rparr>,
       [LanguageModelThinkingPart ''abc'' (Some ''thinking_i'') (Some coalescedMetadata),
        LanguageModelThinkingPart ''xy'' (Some ''thinking_i'')
          (Some \<lparr> mdFormat = None, mdType = Some ''reasoning.text'', mdIndex = Some 0,
                   mdSignature = Some ''c2ln'', mdData = None \<rparr>)])"
    by (simp add: processReasoningDetailC_def isSimpleText_def detailSignature_def detailText_def
        truthy_def flushReasoningBuffer_def ensureThinkingIdC_def newProviderC_def exampleHost_def)
  let ?e = "\<lparr> rdType = ''reasoning.text'', rdIndex = Some 1, rdFormat = None, rdText = [],
         rdSummary = [], rdSignature = Some ''c2lnMg'', rdData = None, rdJson = [] \<rparr>"
  have g1: "rdType ?e = ''reasoning.text''" and g2: "rdSignature ?e = Some ''c2lnMg''"
    and g3: "''c2lnMg'' \<noteq> []" and g4: "rdText ?e = []" by simp_all
  note u = signed_segment_own_event [OF g1 g2 g3, of exampleHost newProviderC newProvider]
  have c: "processReasoningDetail exampleHost newProvider ?e
    = (newProvider\<lparr> currentReasoningSignature := Some ''c2lnMg'' \<rparr>, [])"
    using u g4 by blast
  show ?thesis by (intro conjI b a c)
qed

text \<open>
  In \<^verbatim>\<open>provider.ts\<close> a signed segment whose text is empty is not reported at all: the
  signature is only remembered for the identifier of the next tool call.
\<close>

theorem signed_segment_own_event_counterexample:
  "processReasoningDetail exampleHost newProvider
      \<lparr> rdType = ''reasoning.text'', rdIndex = Some 0, rdFormat = None, rdText = [],
         rdSummary = [], rdSignature = Some ''c2ln'', rdData = None, rdJson = [] \<rparr>
    = (newProvider\<lparr> currentReasoningSignature := Some ''c2ln'' \<rparr>, [])"
  by (simp add: processReasoningDetail_def Let_def truthy_def)


subsection \<open>Claim C6: coalescing of unsigned plain reasoning text\<close>

text \<open>
  Claim C6, as the code has it. In the variant with reasoning coalescing, a segment of type
  \<^verbatim>\<open>reasoning.text\<close> with no signature or the empty one, whatever its index and format, is appended to the
  buffer, and nothing is reported while the buffer holds at most 4000 characters; as soon as
  its length exceeds 4000 characters the buffer is reported as one thinking part and emptied.
  The part carries the metadata \<^verbatim>\<open>{ type: "reasoning.text" }\<close> only: the index and the format
  of the buffered segments are not in it. When a segment arrives that is signed or is not of
  type \<^verbatim>\<open>reasoning.text\<close>, a pending buffer is reported first, then the segment by itself
  when it has a text or a signature.
  When the \<^verbatim>\<open>[DONE]\<close> line arrives, a pending buffer is reported after the flush of the
  tool-call buffers and before the empty part that closes the thinking block. A stream of
  unsigned segments that ends without \<^verbatim>\<open>[DONE]\<close> before the buffer exceeds 4000 characters
  reports nothing. For a stream of 500 unsigned segments of 10 characters followed by
  \<^verbatim>\<open>[DONE]\<close> the coalesced thinking parts are exactly two, of the first 401 and of the last
  99 segments; the empty part that closes the thinking block follows them.
\<close>

theorem unsigned_reasoning_coalesced:
  "(rdType d = ''reasoning.text'' \<and> \<not> truthy (rdSignature d)
      \<and> length (reasoningTextBuffer st) + length (rdText d) \<le> 4000 \<longrightarrow>
    processReasoningDetailC h st d
      = (st\<lparr> reasoningTextBuffer := reasoningTextBuffer st @ rdText d \<rparr>, []))
   \<and> (rdType d = ''reasoning.text'' \<and> \<not> truthy (rdSignature d)
      \<and> length (reasoningTextBuffer st) + length (rdText d) > 4000 \<longrightarrow>
    processReasoningDetailC h st d
      = ((snd (ensureThinkingIdC h st))\<lparr> reasoningTextBuffer := [] \<rparr>,
         [LanguageModelThinkingPart (reasoningTextBuffer st @ rdText d)
            (Some (fst (ensureThinkingIdC h st))) (Some coalescedMetadata)]))
   \<and> (reasoningTextBuffer st \<noteq> []
      \<and> \<not> (rdType e = ''reasoning.text'' \<and> \<not> truthy (rdSignature e)) \<longrightarrow>
    (\<exists>j. snd (processReasoningDetailC h st e)
       = LanguageModelThinkingPart (reasoningTextBuffer st) (Some (fst (ensureThinkingIdC h st)))
           (Some coalescedMetadata)
         # (if detailText e \<noteq> [] \<or> detailSignature e \<noteq> None
            then [LanguageModelThinkingPart (detailText e) (Some j)
                    (Some \<lparr> mdFormat = rdFormat e, mdType = Some (rdType e), mdIndex = rdIndex e,
                             mdSignature = detailSignature e, mdData = None \<rparr>)]
            else []))
    \<and> reasoningTextBuffer (fst (processReasoningDetailC h st e)) = [])
   \<and> (reasoningTextBuffer st \<noteq> [] \<longrightarrow>
    snd (processLinesC h st (DoneLineC # ls))
      = snd (flushToolCallBuffersC h st)
        @ LanguageModelThinkingPart (reasoningTextBuffer st) (Some (fst (ensureThinkingIdC h st)))
            (Some coalescedMetadata)
        # (if fst (ensureThinkingIdC h st) \<noteq> []
           then [LanguageModelThinkingPart [] (Some (fst (ensureThinkingIdC h st))) None] else []))
   \<and> ((\<forall>d \<in> set ds. rdType d = ''reasoning.text'' \<and> \<not> truthy (rdSignature d))
      \<and> length (concat (map rdText ds)) \<le> 4000 \<longrightarrow>
    processStreamingResponseC h (map reasoningDeltaC ds) = [])
   \<and> (randomThinkingId h 0 \<noteq> [] \<and> length segments = 500
      \<and> (\<forall>d \<in> set segments. rdType d = ''reasoning.text'' \<and> \<not> truthy (rdSignature d)
            \<and> length (rdText d) = 10) \<longrightarrow>
    processStreamingResponseC h (map reasoningDeltaC segments @ [DoneLineC])
      = [LanguageModelThinkingPart (concat (map rdText (take 401 segments)))
           (Some (randomThinkingId h 0)) (Some coalescedMetadata),
         LanguageModelThinkingPart (concat (map rdText (drop 401 segments)))
           (Some (randomThinkingId h 0)) (Some coalescedMetadata),
         LanguageModelThinkingPart [] (Some (randomThinkingId h 0)) None])"
proof -
  have a: "rdType d = ''reasoning.text'' \<and> \<not> truthy (rdSignature d)
      \<and> length (reasoningTextBuffer st) + length (rdText d) \<le> 4000 \<longrightarrow>
    processReasoningDetailC h st d
      = (st\<lparr> reasoningTextBuffer := reasoningTextBuffer st @ rdText d \<rparr>, [])"
    using unsigned_buffered by blast
  have b: "rdType d = ''reasoning.text'' \<and> \<not> truthy (rdSignature d)
      \<and> length (reasoningTextBuffer st) + length (rdText d) > 4000 \<longrightarrow>
    processReasoningDetailC h st d
      = ((snd (ensureThinkingIdC h st))\<lparr> reasoningTextBuffer := [] \<rparr>,
         [LanguageModelThinkingPart (reasoningTextBuffer st @ rdText d)
            (Some (fst (ensureThinkingIdC h st))) (Some coalescedMetadata)])"
    using unsigned_flushed by blast
  have c: "reasoningTextBuffer st \<noteq> []
      \<and> \<not> (rdType e = ''reasoning.text'' \<and> \<not> truthy (rdSignature e)) \<longrightarrow>
    (\<exists>j. snd (processReasoningDetailC h st e)
       = LanguageModelThinkingPart (reasoningTextBuffer st) (Some (fst (ensureThinkingIdC h st)))
           (Some coalescedMetadata)
         # (if detailText e \<noteq> [] \<or> detailSignature e \<noteq> None
            then [LanguageModelThinkingPart (detailText e) (Some j)
                    (Some \<lparr> mdFormat = rdFormat e, mdType = Some (rdType e), mdIndex = rdIndex e,
                             mdSignature = detailSignature e, mdData = None \<rparr>)]
            else []))
    \<and> reasoningTextBuffer (fst (processReasoningDetailC h st e)) = []"
    using other_segment_flushes [of st e h] by blast
  have dn: "reasoningTextBuffer st \<noteq> [] \<longrightarrow>
    snd (processLinesC h st (DoneLineC # ls))
      = snd (flushToolCallBuffersC h st)
        @ LanguageModelThinkingPart (reasoningTextBuffer st) (Some (fst (ensureThinkingIdC h st)))
            (Some coalescedMetadata)
        # (if fst (ensureThinkingIdC h st) \<noteq> []
           then [LanguageModelThinkingPart [] (Some (fst (ensureThinkingIdC h st))) None] else [])"
    using done_flushes by blast
  have nd: "(\<forall>d \<in> set ds. rdType d = ''reasoning.text'' \<and> \<not> truthy (rdSignature d))
      \<and> length (concat (map rdText ds)) \<le> 4000 \<longrightarrow>
    processStreamingResponseC h (map reasoningDeltaC ds) = []"
  proof (intro impI, elim conjE)
    assume p: "\<forall>d \<in> set ds. rdType d = ''reasoning.text'' \<and> \<not> truthy (rdSignature d)"
      and l: "length (concat (map rdText ds)) \<le> 4000"
    have "length (reasoningTextBuffer newProviderC) + length (concat (map rdText ds)) \<le> 4000"
      using l by (simp add: newProviderC_def)
    from processLinesC_unsigned [OF p this, of h "[]"]
    have "processLinesC h newProviderC (map reasoningDeltaC ds)
        = (newProviderC\<lparr> reasoningTextBuffer := concat (map rdText ds) \<rparr>, [])"
      by (simp add: newProviderC_def)
    then show "processStreamingResponseC h (map reasoningDeltaC ds) = []"
      by (simp add: processStreamingResponseC_def closeActiveThinking_def newProviderC_def truthy_def)
  qed
  have sc: "randomThinkingId h 0 \<noteq> [] \<and> length segments = 500
      \<and> (\<forall>d \<in> set segments. rdType d = ''reasoning.text'' \<and> \<not> truthy (rdSignature d)
            \<and> length (rdText d) = 10) \<longrightarrow>
    processStreamingResponseC h (map reasoningDeltaC segments @ [DoneLineC])
      = [LanguageModelThinkingPart (concat (map rdText (take 401 segments)))
           (Some (randomThinkingId h 0)) (Some coalescedMetadata),
         LanguageModelThinkingPart (concat (map rdText (drop 401 segments)))
           (Some (randomThinkingId h 0)) (Some coalescedMetadata),
         LanguageModelThinkingPart [] (Some (randomThinkingId h 0)) None]"
  proof (intro impI, elim conjE)
    assume i: "randomThinkingId h 0 \<noteq> []" and n: "length segments = 500"
      and p: "\<forall>d \<in> set segments. rdType d = ''reasoning.text'' \<and> \<not> truthy (rdSignature d)
            \<and> length (rdText d) = 10"
    let ?a = "take 400 segments" and ?m = "segments ! 400" and ?b = "drop 401 segments"
    let ?i = "randomThinkingId h 0"
    have lt: "400 < length segments" using n by simp
    have s1: "Suc 400 = (401::nat)" by simp
    have sp: "segments = ?a @ ?m # ?b"
      using id_take_nth_drop [OF lt] unfolding s1 .
    have t401: "take 401 segments = ?a @ [?m]"
      using take_Suc_conv_app_nth [OF lt] unfolding s1 .
    have m: "?m \<in> set segments" using lt by (rule nth_mem)
    have pm: "rdType ?m = ''reasoning.text''" "\<not> truthy (rdSignature ?m)" "length (rdText ?m) = 10"
      using p m by blast+
    have pa: "\<forall>d \<in> set ?a. rdType d = ''reasoning.text'' \<and> \<not> truthy (rdSignature d)"
      using p by (meson in_set_takeD)
    have pb: "\<forall>d \<in> set ?b. rdType d = ''reasoning.text'' \<and> \<not> truthy (rdSignature d)"
      using p by (meson in_set_dropD)
    have "\<forall>d \<in> set ?a. length (rdText d) = 10" using p by (meson in_set_takeD)
    from length_concat_texts [OF this]
    have la: "length (concat (map rdText ?a)) = 4000" using n by simp
    have "\<forall>d \<in> set ?b. length (rdText d) = 10" using p by (meson in_set_dropD)
    from length_concat_texts [OF this]
    have lb: "length (concat (map rdText ?b)) = 990" using n by simp
    have "map reasoningDeltaC segments = map reasoningDeltaC (?a @ ?m # ?b)"
      using sp by (rule arg_cong)
    then have ls: "map reasoningDeltaC segments @ [DoneLineC]
        = map reasoningDeltaC ?a @ (reasoningDeltaC ?m # (map reasoningDeltaC ?b @ [DoneLineC]))"
      by (simp only: map_append list.map append_assoc append_Cons)
    let ?st400 = "newProviderC\<lparr> reasoningTextBuffer := concat (map rdText ?a) \<rparr>"
    have s400: "processLinesC h newProviderC (map reasoningDeltaC ?a @ rest)
        = processLinesC h ?st400 rest" for rest
      using processLinesC_unsigned [OF pa, of newProviderC h rest] la
      by (simp add: newProviderC_def)
    have l400: "length (reasoningTextBuffer ?st400) + length (rdText ?m) > 4000"
      using la pm(3) by simp
    let ?st401 = "newProviderC\<lparr> currentThinkingIdC := Some ?i, randomDrawsC := 1 \<rparr>"
    have s401: "processReasoningDetailC h ?st400 ?m
        = (?st401, [LanguageModelThinkingPart (concat (map rdText (take 401 segments))) (Some ?i)
                      (Some coalescedMetadata)])"
      unfolding unsigned_flushed [OF pm(1,2) l400] t401
      by (simp add: ensureThinkingIdC_def newProviderC_def truthy_def)
    let ?st500 = "?st401\<lparr> reasoningTextBuffer := concat (map rdText ?b) \<rparr>"
    have s500: "processLinesC h ?st401 (map reasoningDeltaC ?b @ [DoneLineC])
        = processLinesC h ?st500 [DoneLineC]"
      using processLinesC_unsigned [OF pb, of ?st401 h "[DoneLineC]"] lb
      by (simp add: newProviderC_def)
    have neb: "concat (map rdText ?b) \<noteq> []"
    proof
      assume "concat (map rdText ?b) = []"
      then have "length (concat (map rdText ?b)) = 0" by (simp only: list.size)
      with lb show False by simp
    qed
    have fin: "processLinesC h ?st500 [DoneLineC]
        = (newProviderC\<lparr> randomDrawsC := 1 \<rparr>,
           [LanguageModelThinkingPart (concat (map rdText ?b)) (Some ?i) (Some coalescedMetadata),
            LanguageModelThinkingPart [] (Some ?i) None])"
      using i neb
      by (simp add: flushToolCallBuffersC_def flushReasoningBuffer_def ensureThinkingIdC_def
          closeActiveThinking_def newProviderC_def truthy_def)
    have mid: "processLinesC h ?st400 (reasoningDeltaC ?m # (map reasoningDeltaC ?b @ [DoneLineC]))
        = (newProviderC\<lparr> randomDrawsC := 1 \<rparr>,
           [LanguageModelThinkingPart (concat (map rdText (take 401 segments))) (Some ?i)
              (Some coalescedMetadata),
            LanguageModelThinkingPart (concat (map rdText ?b)) (Some ?i) (Some coalescedMetadata),
            LanguageModelThinkingPart [] (Some ?i) None])"
    proof -
      have "processLinesC h ?st400 (reasoningDeltaC ?m # (map reasoningDeltaC ?b @ [DoneLineC]))
        = (case processLinesC h ?st401 (map reasoningDeltaC ?b @ [DoneLineC]) of
             (st2, out2) \<Rightarrow>
               (st2, [LanguageModelThinkingPart (concat (map rdText (take 401 segments))) (Some ?i)
                        (Some coalescedMetadata)] @ out2))"
        unfolding reasoningDeltaC_def processLinesC.simps processDeltaC_reasoning s401 by simp
      then show ?thesis unfolding s500 fin by simp
    qed
    have cl: "snd (closeActiveThinking (newProviderC\<lparr> randomDrawsC := 1 \<rparr>)) = []"
      by (simp add: closeActiveThinking_def newProviderC_def truthy_def)
    show "processStreamingResponseC h (map reasoningDeltaC segments @ [DoneLineC])
      = [LanguageModelThinkingPart (concat (map rdText (take 401 segments)))
           (Some (randomThinkingId h 0)) (Some coalescedMetadata),
         LanguageModelThinkingPart (concat (map rdText (drop 401 segments)))
           (Some (randomThinkingId h 0)) (Some coalescedMetadata),
         LanguageModelThinkingPart [] (Some (randomThinkingId h 0)) None]"
      unfolding processStreamingResponseC_def ls s400 mid using cl by simp
  qed
  show ?thesis by (intro conjI a b c dn nd sc)
qed


theorem unsigned_reasoning_coalesced_witness:
  "processReasoningDetailC exampleHost newProviderC
       \<lparr> rdType = ''reasoning.text'', rdIndex = Some 0, rdFormat = Some ''anthropic-claude-v1'',
          rdText = ''abc'', rdSummary = [], rdSignature = None, rdData = None, rdJson = [] \<rparr>
     = (newProviderC\<lparr> reasoningTextBuffer := ''abc'' \<rparr>, [])
   \<and> processReasoningDetailC exampleHost
       (newProviderC\<lparr> reasoningTextBuffer := replicate 3995 (CHR ''a'') \<rparr>)
       \<lparr> rdType = ''reasoning.text'', rdIndex = Some 0, rdFormat = Some ''anthropic-claude-v1'',
          rdText = ''0123456789'', rdSummary = [], rdSignature = None, rdData = None, rdJson = [] \<rparr>
     = (newProviderC\<lparr> currentThinkingIdC := Some ''thinking_i'', randomDrawsC := 1 \<rparr>,
        [LanguageModelThinkingPart (replicate 3995 (CHR ''a'') @ ''0123456789'')
           (Some ''thinking_i'') (Some coalescedMetadata)])
   \<and> (\<exists>j. snd (processReasoningDetailC exampleHost
            (newProviderC\<lparr> reasoningTextBuffer := ''abc'' \<rparr>)
            \<lparr> rdType = ''reasoning.text'', rdIndex = Some 1, rdFormat = None,
               rdText = ''xy'', rdSummary = [], rdSignature = Some ''c2ln'', rdData = None,
               rdJson = [] \<rparr>)
     = [LanguageModelThinkingPart ''abc'' (Some ''thinking_i'') (Some coalescedMetadata),
        LanguageModelThinkingPart ''xy'' (Some j)
          (Some \<lparr> mdFormat = None, mdType = Some ''reasoning.text'', mdIndex = Some 1,
                   mdSignature = Some ''c2ln'', mdData = None \<rparr>)])
   \<and> snd (processLinesC exampleHost
         (newProviderC\<lparr> reasoningTextBuffer := ''abc'',
            toolCallBuffersC := [(''call_1'', \<lparr> bufIdC = ''call_1'', bufNameC = ''f'',
                                               bufArgumentsC = ''{}'' \<rparr>)] \<rparr>) [DoneLineC])
     = [LanguageModelToolCallPart ''call_1'' ''f'' (JObject []),
        LanguageModelThinkingPart ''abc'' (Some ''thinking_i'') (Some coalescedMetadata),
        LanguageModelThinkingPart [] (Some ''thinking_i'') None]
   \<and> processStreamingResponseC exampleHost
       (map reasoningDeltaC
          [\<lparr> rdType = ''reasoning.text'', rdIndex = Some 0, rdFormat = None,
              rdText = ''abc'', rdSummary = [], rdSignature = None, rdData = None, rdJson = [] \<rparr>,
           \<lparr> rdType = ''reasoning.text'', rdIndex = Some 0, rdFormat = None,
              rdText = ''de'', rdSummary = [], rdSignature = None, rdData = None, rdJson = [] \<rparr>]) = []
   \<and> processStreamingResponseC exampleHost
       (map reasoningDeltaC (replicate 500
          \<lparr> rdType = ''reasoning.text'', rdIndex = Some 0,
             rdFormat = Some ''anthropic-claude-v1'', rdText = ''0123456789'', rdSummary = [],
             rdSignature = None, rdData = None, rdJson = [] \<rparr>) @ [DoneLineC])
     = [LanguageModelThinkingPart (concat (replicate 401 ''0123456789'')) (Some ''thinking_i'')
          (Some coalescedMetadata),
        LanguageModelThinkingPart (concat (replicate 99 ''0123456789'')) (Some ''thinking_i'')
          (Some coalescedMetadata),
        LanguageModelThinkingPart [] (Some ''thinking_i'') None]"
proof -
  let ?d = "\<lambda>t. \<lparr> rdType = ''reasoning.text'', rdIndex = Some 0,
      rdFormat = Some ''anthropic-claude-v1'', rdText = t, rdSummary = [], rdSignature = None,
      rdData = None, rdJson = [] \<rparr>"
  let ?u = "\<lambda>t. \<lparr> rdType = ''reasoning.text'', rdIndex = Some 0, rdFormat = None,
      rdText = t, rdSummary = [], rdSignature = None, rdData = None, rdJson = [] \<rparr>"
  let ?e = "\<lparr> rdType = ''reasoning.text'', rdIndex = Some 1, rdFormat = None,
      rdText = ''xy'', rdSummary = [], rdSignature = Some ''c2ln'', rdData = None, rdJson = [] \<rparr>"
  let ?sa = "newProviderC\<lparr> reasoningTextBuffer := ''abc'' \<rparr>"
  let ?sb = "newProviderC\<lparr> reasoningTextBuffer := replicate 3995 (CHR ''a'') \<rparr>"
  let ?sc = "newProviderC\<lparr> reasoningTextBuffer := ''abc'',
            toolCallBuffersC := [(''call_1'', \<lparr> bufIdC = ''call_1'', bufNameC = ''f'',
                                               bufArgumentsC = ''{}'' \<rparr>)] \<rparr>"
  let ?two = "[?u ''abc'', ?u ''de'']"
  let ?all = "replicate 500 (?d ''0123456789'')"
  note t1 = unsigned_reasoning_coalesced [where h = exampleHost and st = newProviderC and d = "?d ''abc''"
      and e = ?e and ls = "[]" and ds = ?two and segments = ?all]
  note t2 = unsigned_reasoning_coalesced [where h = exampleHost and st = ?sb and d = "?d ''0123456789''"
      and e = ?e and ls = "[]" and ds = ?two and segments = ?all]
  note t3 = unsigned_reasoning_coalesced [where h = exampleHost and st = ?sa and d = "?d ''abc''"
      and e = ?e and ls = "[]" and ds = ?two and segments = ?all]
  note t4 = unsigned_reasoning_coalesced [where h = exampleHost and st = ?sc and d = "?d ''abc''"
      and e = ?e and ls = "[]" and ds = ?two and segments = ?all]
  have e0: "ensureThinkingIdC exampleHost ?sb
        = (''thinking_i'', ?sb\<lparr> currentThinkingIdC := Some ''thinking_i'', randomDrawsC := 1 \<rparr>)"
    "fst (ensureThinkingIdC exampleHost ?sa) = ''thinking_i''"
    "fst (ensureThinkingIdC exampleHost ?sc) = ''thinking_i''"
    by (simp_all add: ensureThinkingIdC_def newProviderC_def truthy_def exampleHost_def)
  have h1: "rdType (?d ''abc'') = ''reasoning.text'' \<and> \<not> truthy (rdSignature (?d ''abc''))
      \<and> length (reasoningTextBuffer newProviderC) + length (rdText (?d ''abc'')) \<le> 4000"
    by (simp add: newProviderC_def truthy_def)
  have a: "processReasoningDetailC exampleHost newProviderC (?d ''abc'')
     = (newProviderC\<lparr> reasoningTextBuffer := ''abc'' \<rparr>, [])"
    using t1 h1 by (simp add: newProviderC_def)
  have h2: "rdType (?d ''0123456789'') = ''reasoning.text''
      \<and> \<not> truthy (rdSignature (?d ''0123456789''))
      \<and> length (reasoningTextBuffer ?sb) + length (rdText (?d ''0123456789'')) > 4000"
    by (simp add: truthy_def)
  have b: "processReasoningDetailC exampleHost ?sb (?d ''0123456789'')
     = (newProviderC\<lparr> currentThinkingIdC := Some ''thinking_i'', randomDrawsC := 1 \<rparr>,
        [LanguageModelThinkingPart (replicate 3995 (CHR ''a'') @ ''0123456789'')
           (Some ''thinking_i'') (Some coalescedMetadata)])"
    using t2 h2 unfolding e0 by (simp add: newProviderC_def)
  have h3: "reasoningTextBuffer ?sa \<noteq> []
      \<and> \<not> (rdType ?e = ''reasoning.text'' \<and> \<not> truthy (rdSignature ?e))"
    by (simp add: truthy_def)
  have c: "\<exists>j. snd (processReasoningDetailC exampleHost ?sa ?e)
     = [LanguageModelThinkingPart ''abc'' (Some ''thinking_i'') (Some coalescedMetadata),
        LanguageModelThinkingPart ''xy'' (Some j)
          (Some \<lparr> mdFormat = None, mdType = Some ''reasoning.text'', mdIndex = Some 1,
                   mdSignature = Some ''c2ln'', mdData = None \<rparr>)]"
    using t3 h3 unfolding e0 by (simp add: detailText_def detailSignature_def truthy_def)
  have h4: "reasoningTextBuffer ?sc \<noteq> []" by simp
  have p: \<open>tryParseJSONObject ''{}'' = Some (JObject [])\<close> by (simp add: json_eval)
  have f: "snd (flushToolCallBuffersC exampleHost ?sc)
      = [LanguageModelToolCallPart ''call_1'' ''f'' (JObject [])]"
    using p by (simp add: flushToolCallBuffersC_def tryEmitBufferedToolCallC_def exampleHost_def
        newProviderC_def Let_def)
  have d: "snd (processLinesC exampleHost ?sc [DoneLineC])
     = [LanguageModelToolCallPart ''call_1'' ''f'' (JObject []),
        LanguageModelThinkingPart ''abc'' (Some ''thinking_i'') (Some coalescedMetadata),
        LanguageModelThinkingPart [] (Some ''thinking_i'') None]"
    using t4 h4 unfolding e0 f by simp
  have h5: "(\<forall>d \<in> set ?two. rdType d = ''reasoning.text'' \<and> \<not> truthy (rdSignature d))
      \<and> length (concat (map rdText ?two)) \<le> 4000"
    by (simp add: truthy_def)
  have g: "processStreamingResponseC exampleHost (map reasoningDeltaC ?two) = []"
    using t1 h5 by blast
  have h6: "randomThinkingId exampleHost 0 \<noteq> [] \<and> length ?all = 500
      \<and> (\<forall>d \<in> set ?all. rdType d = ''reasoning.text'' \<and> \<not> truthy (rdSignature d)
            \<and> length (rdText d) = 10)"
    by (simp add: exampleHost_def truthy_def)
  have i': "randomThinkingId exampleHost 0 = ''thinking_i''" by (simp add: exampleHost_def)
  have tk: "concat (map rdText (take 401 ?all)) = concat (replicate 401 ''0123456789'')"
    "concat (map rdText (drop 401 ?all)) = concat (replicate 99 ''0123456789'')"
    by simp_all
  have k: "processStreamingResponseC exampleHost (map reasoningDeltaC ?all @ [DoneLineC])
     = [LanguageModelThinkingPart (concat (replicate 401 ''0123456789'')) (Some ''thinking_i'')
          (Some coalescedMetadata),
        LanguageModelThinkingPart (concat (replicate 99 ''0123456789'')) (Some ''thinking_i'')
          (Some coalescedMetadata),
        LanguageModelThinkingPart [] (Some ''thinking_i'') None]"
    using t1 h6 unfolding i' tk by blast
  show ?thesis by (intro conjI a b c d g k)
qed

text \<open>
  After 400 unsigned segments of 10 characters the buffer holds exactly 4000 characters and
  nothing has been reported: reaching 4000 characters does not flush the buffer.  When the
  stream ends there, without a \<^verbatim>\<open>[DONE]\<close> line, the buffer is discarded and the whole
  response reports nothing.
\<close>

theorem unsigned_reasoning_coalesced_counterexample:
  "processLinesC exampleHost newProviderC
       (replicate 400 (reasoningDeltaC (plainReasoning ''0123456789'')))
     = (newProviderC\<lparr> reasoningTextBuffer := concat (replicate 400 ''0123456789'') \<rparr>, [])
   \<and> length (concat (replicate 400 ''0123456789'')) = 4000
   \<and> processStreamingResponseC exampleHost
       (replicate 400 (reasoningDeltaC (plainReasoning ''0123456789''))) = []"
proof -
  have "length (reasoningTextBuffer newProviderC) + 400 * length ''0123456789'' \<le> 4000"
    by (simp add: newProviderC_def)
  from processLinesC_append_plain [OF this, of exampleHost "[]"]
  have a: "processLinesC exampleHost newProviderC
       (replicate 400 (reasoningDeltaC (plainReasoning ''0123456789'')))
     = (newProviderC\<lparr> reasoningTextBuffer := concat (replicate 400 ''0123456789'') \<rparr>, [])"
    by (simp add: newProviderC_def)
  have b: "processStreamingResponseC exampleHost
       (replicate 400 (reasoningDeltaC (plainReasoning ''0123456789''))) = []"
    unfolding processStreamingResponseC_def a
    by (simp add: closeActiveThinking_def newProviderC_def truthy_def)
  show ?thesis using a b by (simp add: length_concat_replicate)
qed

end
